theory Spec2Isabelle
  imports Main "HOL-Library.Word"
begin

section \<open>JavaScript strings\<close>

text \<open>
  A JavaScript string is a sequence of 16-bit code units.  ASCII literals of the source
  are written with \<open>ascii\<close>, which maps each character to its code unit.
\<close>

type_synonym jschar = "16 word"
type_synonym jsstring = "jschar list"

definition ascii :: "string \<Rightarrow> jsstring" where
  "ascii s = map of_char s"

abbreviation TAB :: jschar where "TAB \<equiv> 0x09"
abbreviation LF :: jschar where "LF \<equiv> 0x0A"
abbreviation CR :: jschar where "CR \<equiv> 0x0D"
abbreviation SP :: jschar where "SP \<equiv> 0x20"

text \<open>
  The code units removed by \<open>String.prototype.trim\<close>: ECMAScript's WhiteSpace and
  LineTerminator productions.
\<close>

definition is_ws :: "jschar \<Rightarrow> bool" where
  "is_ws c = (c = 0x09 \<or> c = 0x0A \<or> c = 0x0B \<or> c = 0x0C \<or> c = 0x0D \<or> c = 0x20
     \<or> c = 0xA0 \<or> c = 0x1680 \<or> (0x2000 \<le> c \<and> c \<le> 0x200A)
     \<or> c = 0x2028 \<or> c = 0x2029 \<or> c = 0x202F \<or> c = 0x205F \<or> c = 0x3000 \<or> c = 0xFEFF)"

definition trim :: "jsstring \<Rightarrow> jsstring" where
  "trim s = rev (dropWhile is_ws (rev (dropWhile is_ws s)))"

section \<open>TextNormalizer: \<open>cleanText\<close> (src/services/fileProcessor.js)\<close>

text \<open>\<open>.replace(/\r\n/g, '\n')\<close>: scan from the left, each CR LF pair becomes one LF.\<close>

fun replaceCRLF :: "jsstring \<Rightarrow> jsstring" where
  "replaceCRLF (c # d # cs) =
     (if c = CR \<and> d = LF then LF # replaceCRLF cs else c # replaceCRLF (d # cs))"
| "replaceCRLF cs = cs"

text \<open>\<open>.replace(/\r/g, '\n')\<close>\<close>

definition replaceCR :: "jsstring \<Rightarrow> jsstring" where
  "replaceCR s = map (\<lambda>c. if c = CR then LF else c) s"

text \<open>
  \<open>.replace(/c{k,}/g, r)\<close> for one code unit \<open>c\<close> and \<open>k \<ge> 1\<close>: the quantifier is greedy, so
  at a position holding \<open>c\<close> the match is the whole maximal run of \<open>c\<close> starting there, if that
  run has at least \<open>k\<close> members; the scan resumes behind the match.  Where there is no match
  the code unit is copied and the scan moves one position on.
\<close>

function replaceRuns :: "jschar \<Rightarrow> nat \<Rightarrow> jsstring \<Rightarrow> jsstring \<Rightarrow> jsstring" where
  "replaceRuns c k r [] = []"
| "replaceRuns c k r (x # xs) =
     (if x = c \<and> k \<le> length (takeWhile (\<lambda>y. y = c) (x # xs))
      then r @ replaceRuns c k r (dropWhile (\<lambda>y. y = c) (x # xs))
      else x # replaceRuns c k r xs)"
  by pat_completeness auto
termination
  by (relation "measure (\<lambda>(c, k, r, xs). length xs)")
     (auto simp: length_dropWhile_le less_Suc_eq_le)

text \<open>
  \<open>cleanText(text)\<close>; \<open>None\<close> stands for \<open>null\<close> and \<open>undefined\<close>, which like the empty string
  are falsy and give the empty string.
\<close>

definition cleanText :: "jsstring option \<Rightarrow> jsstring" where
  "cleanText text =
     (case text of
        None \<Rightarrow> []
      | Some t \<Rightarrow>
          if t = [] then []
          else trim (replaceRuns SP 2 [SP] (replaceRuns TAB 1 [SP]
                 (replaceRuns LF 3 [LF, LF] (replaceCR (replaceCRLF t))))))"

text \<open>Length of the run of \<open>c\<close> at the head of a string, and strings all of whose runs of
  \<open>c\<close> are shorter than \<open>k\<close>.\<close>

definition runLength :: "jschar \<Rightarrow> jsstring \<Rightarrow> nat" where
  "runLength c xs = length (takeWhile (\<lambda>y. y = c) xs)"

fun runsBelow :: "jschar \<Rightarrow> nat \<Rightarrow> jsstring \<Rightarrow> bool" where
  "runsBelow c k [] = True"
| "runsBelow c k (x # xs) = (runLength c (x # xs) < k \<and> runsBelow c k xs)"

definition isTrimmed :: "jsstring \<Rightarrow> bool" where
  "isTrimmed s = (case s of [] \<Rightarrow> True | x # xs \<Rightarrow> \<not> is_ws x \<and> \<not> is_ws (last s))"

text \<open>The shape of every result of \<open>cleanText\<close>.\<close>

definition normalized :: "jsstring \<Rightarrow> bool" where
  "normalized s = (CR \<notin> set s \<and> TAB \<notin> set s \<and> runsBelow LF 3 s \<and> runsBelow SP 2 s
     \<and> isTrimmed s)"


section \<open>Spreadsheet strategy and FormatRouter (src/services/fileProcessor.js)\<close>

text \<open>\<open>Array.prototype.join\<close>; a cell is given by the text \<open>join\<close> writes for it (the empty
  string for a hole, \<open>null\<close> or \<open>undefined\<close>).\<close>

fun join :: "jsstring \<Rightarrow> jsstring list \<Rightarrow> jsstring" where
  "join sep [] = []"
| "join sep [x] = x"
| "join sep (x # y # ys) = x @ sep @ join sep (y # ys)"

text \<open>A workbook as \<open>xlsx.readFile\<close> returns it: the sheet names in order, and for each name
  the rows that \<open>sheet_to_json(workbook.Sheets[name], {header: 1})\<close> gives.\<close>

record workbook =
  SheetNames :: "jsstring list"
  Sheets :: "jsstring \<Rightarrow> jsstring list list"

text \<open>The body of the inner \<open>forEach\<close>: one row appended to \<open>extractedText\<close>.\<close>

definition appendRow :: "jsstring \<Rightarrow> jsstring list \<Rightarrow> jsstring" where
  "appendRow extractedText row =
     (if length row > 0 then extractedText @ join [TAB] row @ [LF] else extractedText)"

text \<open>The body of the outer \<open>forEach\<close>: one sheet appended to \<open>extractedText\<close>.\<close>

definition appendSheet :: "workbook \<Rightarrow> jsstring \<Rightarrow> jsstring \<Rightarrow> jsstring" where
  "appendSheet wb extractedText sheetName =
     foldl appendRow (extractedText @ ascii ''Sheet: '' @ sheetName @ [LF]) (Sheets wb sheetName)
       @ [LF]"

definition excelText :: "workbook \<Rightarrow> jsstring" where
  "excelText wb = foldl (appendSheet wb) [] (SheetNames wb)"

text \<open>
  A value \<open>JSON.parse\<close> returns.  An object is the list of its own properties; the value of a
  number is never looked at.
\<close>

datatype json =
    JNull
  | JBool bool
  | JNumber int
  | JString jsstring
  | JArray "json list"
  | JObject "(jsstring \<times> json) list"

text \<open>
  The outside world of one run: what each library gives for a file path, namely
  \<open>xlsx.readFile\<close>, the \<open>value\<close> of \<open>mammoth.extractRawText\<close>, the \<open>text\<close> of \<open>pdfParse\<close>,
  \<open>fs.readFile\<close> with \<open>utf8\<close>, and the \<open>text\<close> of \<open>Tesseract.recognize\<close> (the three in the middle
  after \<open>fs.readFile\<close>), each with an error message when it throws; what
  \<open>chat.completions.create\<close> answers to the n-th attempt for a prompt (an error message when
  the call throws, \<open>None\<close> when the completion carries no content); the runtime's
  \<open>JSON.parse\<close> (the message of its SyntaxError, or the value); and whether the n-th
  statement sent to the database in the run is refused (with which message).
\<close>

record env =
  xlsx_readFile :: "jsstring \<Rightarrow> jsstring + workbook"
  mammoth_extractRawText :: "jsstring \<Rightarrow> jsstring + jsstring"
  pdfParse :: "jsstring \<Rightarrow> jsstring + jsstring"
  readFile_utf8 :: "jsstring \<Rightarrow> jsstring + jsstring"
  tesseract_recognize :: "jsstring \<Rightarrow> jsstring + jsstring"
  create :: "jsstring \<Rightarrow> nat \<Rightarrow> jsstring + jsstring option"
  JSON_parse :: "jsstring \<Rightarrow> jsstring + json"
  db_error :: "nat \<Rightarrow> jsstring option"

text \<open>The five strategies: the library's text through \<open>cleanText\<close>, or the library's error
  under the strategy's own prefix.\<close>

definition processExcel :: "env \<Rightarrow> jsstring \<Rightarrow> jsstring + jsstring" where
  "processExcel E filePath =
     (case xlsx_readFile E filePath of
        Inl message \<Rightarrow> Inl (ascii ''Excel processing failed: '' @ message)
      | Inr wb \<Rightarrow> Inr (cleanText (Some (excelText wb))))"

definition processWord :: "env \<Rightarrow> jsstring \<Rightarrow> jsstring + jsstring" where
  "processWord E filePath =
     (case mammoth_extractRawText E filePath of
        Inl message \<Rightarrow> Inl (ascii ''Word processing failed: '' @ message)
      | Inr v \<Rightarrow> Inr (cleanText (Some v)))"

definition processPDF :: "env \<Rightarrow> jsstring \<Rightarrow> jsstring + jsstring" where
  "processPDF E filePath =
     (case pdfParse E filePath of
        Inl message \<Rightarrow> Inl (ascii ''PDF processing failed: '' @ message)
      | Inr v \<Rightarrow> Inr (cleanText (Some v)))"

definition processText :: "env \<Rightarrow> jsstring \<Rightarrow> jsstring + jsstring" where
  "processText E filePath =
     (case readFile_utf8 E filePath of
        Inl message \<Rightarrow> Inl (ascii ''Text processing failed: '' @ message)
      | Inr v \<Rightarrow> Inr (cleanText (Some v)))"

definition processImage :: "env \<Rightarrow> jsstring \<Rightarrow> jsstring + jsstring" where
  "processImage E filePath =
     (case tesseract_recognize E filePath of
        Inl message \<Rightarrow> Inl (ascii ''Image OCR processing failed: '' @ message)
      | Inr v \<Rightarrow> Inr (cleanText (Some v)))"

text \<open>The object literal \<open>this.supportedTypes\<close>: its own properties.\<close>

definition supportedTypes :: "(jsstring \<times> jsstring) list" where
  "supportedTypes =
     [(ascii ''application/vnd.openxmlformats-officedocument.spreadsheetml.sheet'', ascii ''excel''),
      (ascii ''application/vnd.ms-excel'', ascii ''excel''),
      (ascii ''application/vnd.openxmlformats-officedocument.wordprocessingml.document'', ascii ''word''),
      (ascii ''application/msword'', ascii ''word''),
      (ascii ''application/pdf'', ascii ''pdf''),
      (ascii ''text/plain'', ascii ''text''),
      (ascii ''text/markdown'', ascii ''text''),
      (ascii ''image/jpeg'', ascii ''image''),
      (ascii ''image/png'', ascii ''image''),
      (ascii ''image/gif'', ascii ''image'')]"

text \<open>
  The value of a property read on that object.  A key that is not an own property is looked
  up in \<open>Object.prototype\<close>, whose properties are functions and objects of the runtime; each
  is given with the text a template literal writes for it.
\<close>

datatype jsvalue = Undefined | String jsstring | Builtin jsstring

definition nativeFunction :: "string \<Rightarrow> jsstring \<times> jsstring" where
  "nativeFunction name =
     (ascii name, ascii ''function '' @ ascii name @ ascii ''() { [native code] }'')"

definition objectPrototype :: "(jsstring \<times> jsstring) list" where
  "objectPrototype =
     (ascii ''constructor'', ascii ''function Object() { [native code] }'')
     # (ascii ''__proto__'', ascii ''[object Object]'')
     # map nativeFunction
         [''__defineGetter__'', ''__defineSetter__'', ''hasOwnProperty'', ''__lookupGetter__'',
          ''__lookupSetter__'', ''isPrototypeOf'', ''propertyIsEnumerable'', ''toString'',
          ''valueOf'', ''toLocaleString'']"

definition getProperty :: "(jsstring \<times> jsstring) list \<Rightarrow> jsstring \<Rightarrow> jsvalue" where
  "getProperty obj key =
     (case map_of obj key of
        Some v \<Rightarrow> String v
      | None \<Rightarrow> (case map_of objectPrototype key of Some shown \<Rightarrow> Builtin shown | None \<Rightarrow> Undefined))"

definition hasOwnProperty :: "(jsstring \<times> jsstring) list \<Rightarrow> jsstring \<Rightarrow> bool" where
  "hasOwnProperty obj key = (case map_of obj key of Some v \<Rightarrow> True | None \<Rightarrow> False)"

fun truthy :: "jsvalue \<Rightarrow> bool" where
  "truthy Undefined = False"
| "truthy (String s) = (s \<noteq> [])"
| "truthy (Builtin shown) = True"

fun toString :: "jsvalue \<Rightarrow> jsstring" where
  "toString Undefined = ascii ''undefined''"
| "toString (String s) = s"
| "toString (Builtin shown) = shown"

definition isSupported :: "jsstring \<Rightarrow> bool" where
  "isSupported mimeType = hasOwnProperty supportedTypes mimeType"


text \<open>What a run does to the outside, in order.\<close>

datatype strategy = ProcessExcel | ProcessWord | ProcessPDF | ProcessText | ProcessImage

record item =
  assignment :: jsstring
  due_date :: "jsstring option"
  location :: "jsstring option"
  source :: jsstring

datatype stmt =
    InsertFile
  | UpdateExtractedText jsstring
  | InsertAssignment item
  | UpdateCompleted
  | UpdateFailed jsstring

datatype event = Strategy strategy | Request nat | Wait nat | Query stmt bool

text \<open>
  \<open>processFile(filePath, mimeType)\<close>: the strategies invoked, and the text or the thrown
  message.  The \<open>switch\<close> compares with \<open>===\<close>, so only a string selects a case; the \<open>catch\<close>
  logs and rethrows.
\<close>

definition processFile :: "env \<Rightarrow> jsstring \<Rightarrow> jsstring \<Rightarrow> event list \<times> (jsstring + jsstring)" where
  "processFile E filePath mimeType =
     (let processorType = getProperty supportedTypes mimeType in
      if \<not> truthy processorType
      then ([], Inl (ascii ''Unsupported file type: '' @ mimeType))
      else if processorType = String (ascii ''excel'')
      then ([Strategy ProcessExcel], processExcel E filePath)
      else if processorType = String (ascii ''word'')
      then ([Strategy ProcessWord], processWord E filePath)
      else if processorType = String (ascii ''pdf'')
      then ([Strategy ProcessPDF], processPDF E filePath)
      else if processorType = String (ascii ''text'')
      then ([Strategy ProcessText], processText E filePath)
      else if processorType = String (ascii ''image'')
      then ([Strategy ProcessImage], processImage E filePath)
      else ([], Inl (ascii ''No processor found for type: '' @ toString processorType)))"


section \<open>ScheduleExtractor (src/services/openaiService.js)\<close>

text \<open>Decimal text of an index or a count in a template literal.\<close>

fun showNat :: "nat \<Rightarrow> jsstring" where
  "showNat n =
     (if n < 10 then [0x30 + of_nat n] else showNat (n div 10) @ [0x30 + of_nat (n mod 10)])"

subsection \<open>Field validation\<close>

text \<open>A property read \<open>item.name\<close> on a parsed value; \<open>None\<close> is \<open>undefined\<close>.  An array has
  none of the four properties read here.\<close>

fun getField :: "json \<Rightarrow> jsstring \<Rightarrow> json option" where
  "getField (JObject kvs) name = map_of kvs name"
| "getField v name = None"

definition validateString :: "json option \<Rightarrow> jsstring \<Rightarrow> jsstring + jsstring" where
  "validateString v fieldName =
     (case v of
        Some (JString s) \<Rightarrow>
          if length (trim s) = 0 then Inl (fieldName @ ascii '' must be a non-empty string'')
          else Inr (trim s)
      | _ \<Rightarrow> Inl (fieldName @ ascii '' must be a non-empty string''))"

definition validateOptionalString :: "json option \<Rightarrow> jsstring option" where
  "validateOptionalString v =
     (case v of
        Some (JString s) \<Rightarrow> (let trimmed = trim s in if length trimmed > 0 then Some trimmed else None)
      | _ \<Rightarrow> None)"

text \<open>\<open>/^\d{4}-\d{2}-\d{2}$/.test(value)\<close>: without the \<open>m\<close> flag \<open>$\<close> is the end of the input,
  and \<open>\d\<close> is an ASCII digit.\<close>

definition isDigit :: "jschar \<Rightarrow> bool" where
  "isDigit c = (0x30 \<le> c \<and> c \<le> 0x39)"

definition dateRegex_test :: "jsstring \<Rightarrow> bool" where
  "dateRegex_test v =
     (length v = 10 \<and> list_all isDigit (take 4 v) \<and> v ! 4 = 0x2D
      \<and> list_all isDigit (take 2 (drop 5 v)) \<and> v ! 7 = 0x2D \<and> list_all isDigit (drop 8 v))"

text \<open>
  The runtime's \<open>Date\<close>, for a string of that form (a date-only ISO string, read as UTC
  midnight).  V8 refuses a month outside 1..12 and a day outside 1..31 (Invalid Date) and
  lets a day beyond the month's end run over into the next month; \<open>toISOString\<close> writes the
  resulting calendar day, of which \<open>split('T')[0]\<close> keeps year, month and day.
\<close>

definition parseDigits :: "jsstring \<Rightarrow> nat" where
  "parseDigits ds = foldl (\<lambda>n c. 10 * n + unat (c - 0x30)) 0 ds"

fun pad :: "nat \<Rightarrow> nat \<Rightarrow> jsstring" where
  "pad 0 n = []"
| "pad (Suc w) n = pad w (n div 10) @ [0x30 + of_nat (n mod 10)]"

definition isLeapYear :: "nat \<Rightarrow> bool" where
  "isLeapYear y = (if y mod 100 = 0 then y mod 400 = 0 else y mod 4 = 0)"

definition daysInMonth :: "nat \<Rightarrow> nat \<Rightarrow> nat" where
  "daysInMonth y m =
     (if m = 2 then (if isLeapYear y then 29 else 28)
      else if m = 4 \<or> m = 6 \<or> m = 9 \<or> m = 11 then 30
      else 31)"

datatype date = InvalidDate | Date nat nat nat

definition newDate :: "jsstring \<Rightarrow> date" where
  "newDate v =
     (let y = parseDigits (take 4 v); m = parseDigits (take 2 (drop 5 v));
          d = parseDigits (drop 8 v)
      in if m < 1 \<or> 12 < m \<or> d < 1 \<or> 31 < d then InvalidDate
         else if d \<le> daysInMonth y m then Date y m d
         else Date y (m + 1) (d - daysInMonth y m))"

text \<open>\<open>date.toISOString().split('T')[0]\<close>; on an Invalid Date \<open>toISOString\<close> throws, and
  \<open>validateDate\<close> has returned before.\<close>

fun toISODate :: "date \<Rightarrow> jsstring" where
  "toISODate (Date y m d) = pad 4 y @ [0x2D] @ pad 2 m @ [0x2D] @ pad 2 d"
| "toISODate InvalidDate = []"

definition validateDate :: "json option \<Rightarrow> jsstring option" where
  "validateDate v =
     (case v of
        Some (JString s) \<Rightarrow>
          if \<not> dateRegex_test s then None
          else (case newDate s of
                  InvalidDate \<Rightarrow> None
                | Date y m d \<Rightarrow> if toISODate (Date y m d) \<noteq> s then None else Some s)
      | _ \<Rightarrow> None)"

subsection \<open>Response validation\<close>

text \<open>\<open>typeof item !== 'object' || item === null\<close>: of the parsed values only arrays and
  objects pass.\<close>

fun typeofObject :: "json \<Rightarrow> bool" where
  "typeofObject JNull = True"
| "typeofObject (JArray xs) = True"
| "typeofObject (JObject kvs) = True"
| "typeofObject v = False"

definition validateItem :: "nat \<Rightarrow> json \<Rightarrow> jsstring + item" where
  "validateItem index it =
     (if \<not> typeofObject it \<or> it = JNull
      then Inl (ascii ''Item '' @ showNat index @ ascii '' is not an object'')
      else (case validateString (getField it (ascii ''assignment'')) (ascii ''assignment'') of
              Inl message \<Rightarrow> Inl message
            | Inr a \<Rightarrow>
                (case validateString (getField it (ascii ''source'')) (ascii ''source'') of
                   Inl message \<Rightarrow> Inl message
                 | Inr src \<Rightarrow>
                     Inr \<lparr>assignment = a,
                          due_date = validateDate (getField it (ascii ''due_date'')),
                          location = validateOptionalString (getField it (ascii ''location'')),
                          source = src\<rparr>)))"

text \<open>\<open>parsed.map((item, index) => ...)\<close>: the first element that throws ends the map.\<close>

fun mapItems :: "nat \<Rightarrow> json list \<Rightarrow> jsstring + item list" where
  "mapItems index [] = Inr []"
| "mapItems index (x # xs) =
     (case validateItem index x of
        Inl message \<Rightarrow> Inl message
      | Inr v \<Rightarrow> (case mapItems (Suc index) xs of
                    Inl message \<Rightarrow> Inl message
                  | Inr vs \<Rightarrow> Inr (v # vs)))"

text \<open>\<open>content.match(/\[[\s\S]*\]/)\<close>: from the first \<open>[\<close> to the last \<open>]\<close> behind it.\<close>

definition matchJsonArray :: "jsstring \<Rightarrow> jsstring option" where
  "matchJsonArray content =
     (let fromBracket = dropWhile (\<lambda>c. c \<noteq> 0x5B) content
      in if fromBracket = [] then None
         else if 0x5D \<in> set (tl fromBracket)
         then Some (0x5B # rev (dropWhile (\<lambda>c. c \<noteq> 0x5D) (rev (tl fromBracket))))
         else None)"

text \<open>\<open>jsonMatch ? jsonMatch[0] : content\<close>\<close>

definition jsonString :: "jsstring \<Rightarrow> jsstring" where
  "jsonString content = (case matchJsonArray content of Some m \<Rightarrow> m | None \<Rightarrow> content)"

definition parseAndValidateResponse :: "env \<Rightarrow> jsstring \<Rightarrow> jsstring + item list" where
  "parseAndValidateResponse E content =
     (let outcome = (case JSON_parse E (jsonString content) of
                       Inl message \<Rightarrow> Inl message
                     | Inr parsed \<Rightarrow>
                         (case parsed of
                            JArray xs \<Rightarrow> mapItems 0 xs
                          | _ \<Rightarrow> Inl (ascii ''Response is not an array'')))
      in case outcome of
           Inl message \<Rightarrow> Inl (ascii ''Invalid JSON response from OpenAI: '' @ message)
         | Inr validated \<Rightarrow> Inr validated)"

subsection \<open>Retry\<close>

definition maxRetries :: nat where
  "maxRetries = 3"

definition retryDelay :: nat where
  "retryDelay = 1000"

text \<open>The \<open>try\<close> block of \<open>makeRequestWithRetry\<close>: one request, then validation.\<close>

definition attemptRequest :: "env \<Rightarrow> jsstring \<Rightarrow> nat \<Rightarrow> jsstring + item list" where
  "attemptRequest E prompt attempt =
     (case create E prompt attempt of
        Inl message \<Rightarrow> Inl message
      | Inr None \<Rightarrow> Inl (ascii ''No content received from OpenAI'')
      | Inr (Some content) \<Rightarrow>
          if content = [] then Inl (ascii ''No content received from OpenAI'')
          else parseAndValidateResponse E content)"

function makeRequestWithRetry ::
  "env \<Rightarrow> jsstring \<Rightarrow> nat \<Rightarrow> event list \<times> (jsstring + item list)" where
  "makeRequestWithRetry E prompt attempt =
     (case attemptRequest E prompt attempt of
        Inr parsedData \<Rightarrow> ([Request attempt], Inr parsedData)
      | Inl message \<Rightarrow>
          if attempt < maxRetries
          then (let delay = retryDelay * attempt;
                    (events, outcome) = makeRequestWithRetry E prompt (attempt + 1)
                in (Request attempt # Wait delay # events, outcome))
          else ([Request attempt],
                Inl (ascii ''OpenAI request failed after '' @ showNat maxRetries
                     @ ascii '' attempts: '' @ message)))"
  by pat_completeness auto
termination
  by (relation "measure (\<lambda>(E, prompt, attempt). maxRetries - attempt)") auto

definition buildPrompt :: "jsstring \<Rightarrow> jsstring \<Rightarrow> jsstring" where
  \<open>buildPrompt extractedText fileName =
     ascii ''\<newline>You are an AI assistant that extracts academic schedule and assignment information from text content.\<newline>''
   @ ascii ''\<newline>Please analyze the following text extracted from a file named "'' @ fileName
   @ ascii ''" and extract any assignments, due dates, class schedules, or academic events.\<newline>''
   @ ascii ''\<newline>For each item found, return a JSON object with this exact structure:\<newline>{\<newline>''
   @ ascii ''  "assignment": "string - description of the assignment, class, or event",\<newline>''
   @ ascii ''  "due_date": "YYYY-MM-DD format or null if no date found",\<newline>''
   @ ascii ''  "location": "string or null if no location specified",\<newline>''
   @ ascii ''  "source": "string - the filename where this was found"\<newline>}\<newline>''
   @ ascii ''\<newline>Return an array of these objects. If no relevant academic information is found, return an empty array.\<newline>''
   @ ascii ''\<newline>Rules:\<newline>''
   @ ascii ''- Only extract academic-related content (assignments, classes, exams, study sessions, etc.)\<newline>''
   @ ascii ''- Dates must be in YYYY-MM-DD format or null\<newline>''
   @ ascii ''- Be conservative - only extract clear, unambiguous information\<newline>''
   @ ascii ''- If you're unsure about a date, set it to null\<newline>''
   @ ascii ''- Include the source filename for each item\<newline>''
   @ ascii ''\<newline>Text content to analyze:\<newline>'' @ extractedText @ [LF]\<close>

text \<open>\<open>extractScheduleData\<close>: the first attempt is attempt 1; the \<open>catch\<close> logs and rethrows.\<close>

definition extractScheduleData ::
  "env \<Rightarrow> jsstring \<Rightarrow> jsstring \<Rightarrow> event list \<times> (jsstring + item list)" where
  "extractScheduleData E extractedText fileName =
     makeRequestWithRetry E (buildPrompt extractedText fileName) 1"


section \<open>IngestionPipeline (the upload route, src/unnamed/part_000)\<close>

datatype status = pending | processing | text_extracted | completed | failed

text \<open>The row of \<open>uploaded_files\<close> for the file of the run (absent before the insert), and the
  rows the run has added to \<open>assignments\<close>.\<close>

record file_row =
  processing_status :: status
  extracted_text :: "jsstring option"
  processing_error :: "jsstring option"

record run =
  fileRecord :: "file_row option"
  assignments :: "item list"
  issued :: nat
  events :: "event list"

definition initial :: run where
  "initial = \<lparr>fileRecord = None, assignments = [], issued = 0, events = []\<rparr>"

text \<open>What a statement does to the tables when the database carries it out.  An \<open>UPDATE\<close>
  changes the row it names, if there is one.\<close>

fun applyStmt :: "stmt \<Rightarrow> run \<Rightarrow> run" where
  "applyStmt InsertFile r =
     r\<lparr>fileRecord := Some \<lparr>processing_status = processing, extracted_text = None,
                       processing_error = None\<rparr>\<rparr>"
| "applyStmt (UpdateExtractedText t) r =
     r\<lparr>fileRecord := map_option (\<lambda>f. f\<lparr>extracted_text := Some t, processing_status := text_extracted\<rparr>)
                (fileRecord r)\<rparr>"
| "applyStmt (InsertAssignment i) r = r\<lparr>assignments := assignments r @ [i]\<rparr>"
| "applyStmt UpdateCompleted r =
     r\<lparr>fileRecord := map_option (\<lambda>f. f\<lparr>processing_status := completed\<rparr>) (fileRecord r)\<rparr>"
| "applyStmt (UpdateFailed message) r =
     r\<lparr>fileRecord := map_option (\<lambda>f. f\<lparr>processing_status := failed, processing_error := Some message\<rparr>)
                (fileRecord r)\<rparr>"

text \<open>\<open>await query(...)\<close>: the statement is carried out, or the call throws and the tables
  stay as they were.\<close>

definition query :: "env \<Rightarrow> stmt \<Rightarrow> run \<Rightarrow> (jsstring + unit) \<times> run" where
  "query E q r =
     (case db_error E (issued r) of
        Some message \<Rightarrow> (Inl message, r\<lparr>issued := Suc (issued r), events := events r @ [Query q False]\<rparr>)
      | None \<Rightarrow>
          (Inr (), (applyStmt q r)\<lparr>issued := Suc (issued r), events := events r @ [Query q True]\<rparr>))"

text \<open>The \<open>for\<close> loop over \<open>scheduleData\<close>: one insert per item, ended by the first that
  throws.\<close>

fun insertAssignments :: "env \<Rightarrow> item list \<Rightarrow> run \<Rightarrow> (jsstring + unit) \<times> run" where
  "insertAssignments E [] r = (Inr (), r)"
| "insertAssignments E (i # rest) r =
     (case query E (InsertAssignment i) r of
        (Inl message, r') \<Rightarrow> (Inl message, r')
      | (Inr u, r') \<Rightarrow> insertAssignments E rest r')"

text \<open>The \<open>catch\<close> block of \<open>processFileAsync\<close>: one statement; if it throws too, the promise
  of the run is rejected.\<close>

definition markFailed :: "env \<Rightarrow> jsstring \<Rightarrow> run \<Rightarrow> (jsstring + unit) \<times> run" where
  "markFailed E message r = query E (UpdateFailed message) r"

text \<open>The \<open>try\<close> block of \<open>processFileAsync\<close>: the stages in order, left at the first
  throw with the thrown message.\<close>

definition tryBlock ::
  "env \<Rightarrow> jsstring \<Rightarrow> jsstring \<Rightarrow> jsstring \<Rightarrow> run \<Rightarrow> (jsstring + unit) \<times> run" where
  "tryBlock E filePath mimeType originalName r =
     (case processFile E filePath mimeType of
        (invoked, Inl message) \<Rightarrow> (Inl message, r\<lparr>events := events r @ invoked\<rparr>)
      | (invoked, Inr extractedText) \<Rightarrow>
          (case query E (UpdateExtractedText extractedText) (r\<lparr>events := events r @ invoked\<rparr>) of
             (Inl message, r1) \<Rightarrow> (Inl message, r1)
           | (Inr u, r1) \<Rightarrow>
               (case extractScheduleData E extractedText originalName of
                  (requested, Inl message) \<Rightarrow>
                    (Inl message, r1\<lparr>events := events r1 @ requested\<rparr>)
                | (requested, Inr scheduleData) \<Rightarrow>
                    (case insertAssignments E scheduleData (r1\<lparr>events := events r1 @ requested\<rparr>) of
                       (Inl message, r2) \<Rightarrow> (Inl message, r2)
                     | (Inr u, r2) \<Rightarrow> query E UpdateCompleted r2))))"

text \<open>\<open>processFileAsync\<close>: the \<open>try\<close> block, and on a throw the \<open>catch\<close> block.\<close>

definition processFileAsync ::
  "env \<Rightarrow> jsstring \<Rightarrow> jsstring \<Rightarrow> jsstring \<Rightarrow> run \<Rightarrow> (jsstring + unit) \<times> run" where
  "processFileAsync E filePath mimeType originalName r =
     (case tryBlock E filePath mimeType originalName r of
        (Inl message, r') \<Rightarrow> markFailed E message r'
      | (Inr u, r') \<Rightarrow> (Inr (), r'))"

text \<open>The body of the loop of \<open>router.post('/')\<close> for one file: the row is inserted with
  status \<open>processing\<close>, then the run is started; if the insert throws there is no run.\<close>

definition uploadFile :: "env \<Rightarrow> jsstring \<Rightarrow> jsstring \<Rightarrow> jsstring \<Rightarrow> (jsstring + unit) \<times> run" where
  "uploadFile E filePath mimeType originalName =
     (case query E InsertFile initial of
        (Inl message, r) \<Rightarrow> (Inl message, r)
      | (Inr u, r) \<Rightarrow> processFileAsync E filePath mimeType originalName r)"



subsection \<open>Reading the record of a run\<close>

text \<open>The status a statement writes, and the statuses durably written in a run, in order.\<close>

fun statusWritten :: "stmt \<Rightarrow> status option" where
  "statusWritten InsertFile = Some processing"
| "statusWritten (UpdateExtractedText t) = Some text_extracted"
| "statusWritten (InsertAssignment i) = None"
| "statusWritten UpdateCompleted = Some completed"
| "statusWritten (UpdateFailed message) = Some failed"

fun statusHistory :: "event list \<Rightarrow> status list" where
  "statusHistory [] = []"
| "statusHistory (Query q True # es) =
     (case statusWritten q of Some s \<Rightarrow> s # statusHistory es | None \<Rightarrow> statusHistory es)"
| "statusHistory (e # es) = statusHistory es"

fun rank :: "status \<Rightarrow> nat" where
  "rank pending = 0"
| "rank processing = 1"
| "rank text_extracted = 2"
| "rank completed = 3"
| "rank failed = 4"

definition terminal :: "status \<Rightarrow> bool" where
  "terminal s = (s = completed \<or> s = failed)"

definition legalStep :: "status \<Rightarrow> status \<Rightarrow> bool" where
  "legalStep a b =
     (\<not> terminal a
      \<and> (if b = failed then a = processing \<or> a = text_extracted else rank a \<le> rank b))"

fun legalHistory :: "status list \<Rightarrow> bool" where
  "legalHistory (a # b # rest) = (legalStep a b \<and> legalHistory (b # rest))"
| "legalHistory rest = True"

text \<open>The status column agrees with the statuses written: it holds the last of them.\<close>

definition consistent :: "run \<Rightarrow> bool" where
  "consistent r =
     (case fileRecord r of
        None \<Rightarrow> statusHistory (events r) = []
      | Some f \<Rightarrow> statusHistory (events r) \<noteq> []
                  \<and> processing_status f = last (statusHistory (events r)))"

definition stored :: "run \<Rightarrow> bool" where
  "stored r = (fileRecord r \<noteq> None \<and> consistent r)"

text \<open>The statements of the \<open>try\<close> block of a run.\<close>

definition interrupted :: "stmt \<Rightarrow> bool" where
  "interrupted q =
     (case q of
        UpdateExtractedText t \<Rightarrow> True
      | InsertAssignment i \<Rightarrow> True
      | UpdateCompleted \<Rightarrow> True
      | _ \<Rightarrow> False)"

text \<open>The first statement of a run that the database refused, with the events behind it.\<close>

fun afterFailure :: "event list \<Rightarrow> (stmt \<times> event list) option" where
  "afterFailure [] = None"
| "afterFailure (Query q False # es) = Some (q, es)"
| "afterFailure (e # es) = afterFailure es"


text \<open>After the first refused statement a run does at most one thing more: unless that
  statement was the first insert or the write of \<open>failed\<close> itself, it tries to write
  \<open>failed\<close>, once.\<close>

definition abortsAfterRefusal :: "event list \<Rightarrow> bool" where
  "abortsAfterRefusal evs =
     (case afterFailure evs of
        None \<Rightarrow> True
      | Some (q, rest) \<Rightarrow>
          (case q of
             InsertFile \<Rightarrow> rest = []
           | UpdateFailed message \<Rightarrow> rest = []
           | _ \<Rightarrow> (case rest of [Query (UpdateFailed message) ok] \<Rightarrow> True | _ \<Rightarrow> False)))"

text \<open>The number of statements sent to the database in a record of events, and the first
  statement the database refused: its number among the statements of the run (counted from
  \<open>n\<close>), the statement, and the events behind it.\<close>

fun sent :: "event list \<Rightarrow> nat" where
  "sent [] = 0"
| "sent (Query q ok # es) = Suc (sent es)"
| "sent (e # es) = sent es"

fun firstRefusal :: "nat \<Rightarrow> event list \<Rightarrow> (nat \<times> stmt \<times> event list) option" where
  "firstRefusal n [] = None"
| "firstRefusal n (Query q ok # es) = (if ok then firstRefusal (Suc n) es else Some (n, q, es))"
| "firstRefusal n (e # es) = firstRefusal n es"

text \<open>
  What a refused statement leaves behind.  The error of the refused statement is the one the
  database gave for it, \<open>db_error E n\<close>.  After a refused statement of the \<open>try\<close> block the
  run sends exactly one more statement, the write of \<open>failed\<close> with the message of that
  error; if the database accepts it, the row holds the status \<open>failed\<close> and that message.
  After a refused first insert, and after a refused write of \<open>failed\<close>, nothing follows.
\<close>

definition recorded :: "env \<Rightarrow> file_row option \<Rightarrow> (nat \<times> stmt \<times> event list) option \<Rightarrow> bool" where
  "recorded E f refusal =
     (case refusal of
        None \<Rightarrow> True
      | Some (n, q, rest) \<Rightarrow>
          (case q of
             InsertFile \<Rightarrow> rest = []
           | UpdateFailed cause \<Rightarrow> rest = []
           | _ \<Rightarrow>
               (case db_error E n of
                  None \<Rightarrow> False
                | Some message \<Rightarrow>
                    rest = [Query (UpdateFailed message) False]
                    \<or> (rest = [Query (UpdateFailed message) True]
                        \<and> map_option (\<lambda>row. (processing_status row, processing_error row)) f
                            = Some (failed, Some message)))))"

definition failureRecorded :: "env \<Rightarrow> run \<Rightarrow> bool" where
  "failureRecorded E r = recorded E (fileRecord r) (firstRefusal 0 (events r))"

text \<open>Events that are no statements; a record of events in which a refused statement is the
  last event and its error is the outcome; and an operation whose events, statement count
  and outcome agree in that way.\<close>

definition quiet :: "event list \<Rightarrow> bool" where
  "quiet xs = list_all (\<lambda>e. case e of Query q ok \<Rightarrow> False | _ \<Rightarrow> True) xs"

definition thrown :: "env \<Rightarrow> nat \<Rightarrow> event list \<Rightarrow> jsstring + unit \<Rightarrow> bool" where
  "thrown E n evs res =
     (case firstRefusal n evs of
        None \<Rightarrow> True
      | Some (i, q, rest) \<Rightarrow>
          rest = [] \<and> interrupted q
          \<and> (case db_error E i of None \<Rightarrow> False | Some message \<Rightarrow> res = Inl message))"

definition traced :: "env \<Rightarrow> run \<Rightarrow> (jsstring + unit) \<times> run \<Rightarrow> bool" where
  "traced E r out =
     (let evs = drop (length (events r)) (events (snd out))
      in events (snd out) = events r @ evs \<and> issued (snd out) = issued r + sent evs
         \<and> thrown E (issued r) evs (fst out))"

section \<open>Notions of the specification\<close>

text \<open>The lines of a text (the pieces between line feeds); an empty piece is a blank line.\<close>

fun splitLines :: "jsstring \<Rightarrow> jsstring list" where
  "splitLines [] = [[]]"
| "splitLines (c # cs) =
     (if c = LF then [] # splitLines cs
      else (case splitLines cs of [] \<Rightarrow> [[c]] | l # ls \<Rightarrow> (c # l) # ls))"

text \<open>The replacements of \<open>cleanText\<close>, before the trim.\<close>

definition replacements :: "jsstring \<Rightarrow> jsstring" where
  "replacements t =
     replaceRuns SP 2 [SP] (replaceRuns TAB 1 [SP] (replaceRuns LF 3 [LF, LF]
       (replaceCR (replaceCRLF t))))"

text \<open>The first three replacements, which bear on line endings, and the last two, which bear
  on tabs and spaces.\<close>

definition lineBreaks :: "jsstring \<Rightarrow> jsstring" where
  "lineBreaks t = replaceRuns LF 3 [LF, LF] (replaceCR (replaceCRLF t))"

definition blanks :: "jsstring \<Rightarrow> jsstring" where
  "blanks t = replaceRuns SP 2 [SP] (replaceRuns TAB 1 [SP] t)"

text \<open>
  The normalisation in the words of the specification, as one pass over the text.  A line
  ending is CR LF, a lone CR or a line feed; \<open>lineEndings\<close> counts the line endings of a
  text made of CR and LF.  In \<open>collapse\<close> every maximal run of line endings becomes one line
  feed if it holds one line ending and two line feeds (one blank line) if it holds more,
  every maximal run of tabs and spaces becomes one space, and every other code unit is
  kept.
\<close>

fun lineEndings :: "jsstring \<Rightarrow> nat" where
  "lineEndings (c # d # cs) =
     (if c = CR \<and> d = LF then Suc (lineEndings cs) else Suc (lineEndings (d # cs)))"
| "lineEndings [c] = 1"
| "lineEndings [] = 0"

function collapse :: "jsstring \<Rightarrow> jsstring" where
  "collapse [] = []"
| "collapse (x # xs) =
     (if x = CR \<or> x = LF
      then replicate (min (lineEndings (takeWhile (\<lambda>c. c = CR \<or> c = LF) (x # xs))) 2) LF
           @ collapse (dropWhile (\<lambda>c. c = CR \<or> c = LF) (x # xs))
      else if x = TAB \<or> x = SP
      then SP # collapse (dropWhile (\<lambda>c. c = TAB \<or> c = SP) (x # xs))
      else x # collapse xs)"
  by pat_completeness auto
termination
  by (relation "measure length") (auto simp: length_dropWhile_le less_Suc_eq_le)


text \<open>A word: a non-empty string without white space.\<close>

definition plain :: "jsstring \<Rightarrow> bool" where
  "plain w = (w \<noteq> [] \<and> list_all (\<lambda>c. \<not> is_ws c) w)"

text \<open>A code unit that none of the replacements touches, and a text that begins and ends
  with something other than white space.\<close>

definition ordinary :: "jschar \<Rightarrow> bool" where
  "ordinary x = (x \<noteq> CR \<and> x \<noteq> LF \<and> x \<noteq> TAB \<and> x \<noteq> SP)"

definition solid :: "jsstring \<Rightarrow> bool" where
  "solid s = (s \<noteq> [] \<and> \<not> is_ws (hd s) \<and> \<not> is_ws (last s))"

text \<open>The text the Spreadsheet strategy builds for one sheet, in the words of the
  specification: the sheet's name line, one tab-joined line for each row that has cells, and
  a blank line.\<close>

definition sheetBlock :: "workbook \<Rightarrow> jsstring \<Rightarrow> jsstring" where
  "sheetBlock wb name =
     ascii ''Sheet: '' @ name @ [LF]
     @ concat (map (\<lambda>row. join [TAB] row @ [LF]) (filter (\<lambda>row. row \<noteq> []) (Sheets wb name)))
     @ [LF]"

text \<open>The lines of one sheet as the strategy builds them, without the blank line behind
  them.\<close>

definition sheetBody :: "workbook \<Rightarrow> jsstring \<Rightarrow> jsstring" where
  "sheetBody wb name =
     join [LF] ((ascii ''Sheet: '' @ name)
                # map (join [TAB]) (filter (\<lambda>row. row \<noteq> []) (Sheets wb name)))"

text \<open>What the Spreadsheet strategy returns for one sheet of a workbook whose sheet names
  and cells are words: the name line, and one line of space-separated cells for each row
  that has cells.\<close>

definition sheetView :: "workbook \<Rightarrow> jsstring \<Rightarrow> jsstring" where
  "sheetView wb name =
     join [LF] ((ascii ''Sheet: '' @ name)
                # map (join [SP]) (filter (\<lambda>row. row \<noteq> []) (Sheets wb name)))"

definition wordsOnly :: "workbook \<Rightarrow> bool" where
  "wordsOnly wb =
     (list_all plain (SheetNames wb)
      \<and> list_all (\<lambda>name. list_all (list_all plain) (Sheets wb name)) (SheetNames wb))"

text \<open>A workbook whose sheet names and cells are not empty and neither begin nor end with
  white space (inside, a cell may hold any text), and what the Spreadsheet strategy returns
  for one sheet of such a workbook: the name line, and for each row that has cells its
  cells, each normalised, separated by single spaces.\<close>

definition solidCells :: "workbook \<Rightarrow> bool" where
  "solidCells wb =
     (list_all solid (SheetNames wb)
      \<and> list_all (\<lambda>name. list_all (list_all solid) (Sheets wb name)) (SheetNames wb))"

definition sheetText :: "workbook \<Rightarrow> jsstring \<Rightarrow> jsstring" where
  "sheetText wb name =
     join [LF] ((ascii ''Sheet: '' @ collapse name)
                # map (\<lambda>row. join [SP] (map collapse row))
                    (filter (\<lambda>row. row \<noteq> []) (Sheets wb name)))"


text \<open>The attempt numbers of the requests in a record of events.\<close>

fun requests :: "event list \<Rightarrow> nat list" where
  "requests [] = []"
| "requests (Request n # es) = n # requests es"
| "requests (e # es) = requests es"

text \<open>A date string that round-trips through the runtime's \<open>Date\<close>, and a date string that
  names a day of the calendar.\<close>

definition roundTrips :: "jsstring \<Rightarrow> bool" where
  "roundTrips s =
     (dateRegex_test s
      \<and> (case newDate s of InvalidDate \<Rightarrow> False | Date y m d \<Rightarrow> toISODate (Date y m d) = s))"

definition calendarDate :: "jsstring \<Rightarrow> bool" where
  "calendarDate s =
     (let y = parseDigits (take 4 s); m = parseDigits (take 2 (drop 5 s));
          d = parseDigits (drop 8 s)
      in dateRegex_test s \<and> 1 \<le> m \<and> m \<le> 12 \<and> 1 \<le> d \<and> d \<le> daysInMonth y m)"

definition dateOrNull :: "json option \<Rightarrow> jsstring option" where
  "dateOrNull v =
     (case v of Some (JString s) \<Rightarrow> if calendarDate s then Some s else None | _ \<Rightarrow> None)"

text \<open>An element the validation lets through: an object whose \<open>assignment\<close> and \<open>source\<close> are
  strings that are not empty after trimming.\<close>

definition nonEmptyString :: "json option \<Rightarrow> bool" where
  "nonEmptyString v = (case v of Some (JString s) \<Rightarrow> trim s \<noteq> [] | _ \<Rightarrow> False)"

definition validElement :: "json \<Rightarrow> bool" where
  "validElement x =
     (case x of
        JObject kvs \<Rightarrow>
          nonEmptyString (getField x (ascii ''assignment''))
          \<and> nonEmptyString (getField x (ascii ''source''))
      | _ \<Rightarrow> False)"

definition acceptable :: "json \<Rightarrow> bool" where
  "acceptable parsed = (case parsed of JArray xs \<Rightarrow> list_all validElement xs | _ \<Rightarrow> False)"

section \<open>A sample world\<close>

text \<open>Remote answers of the end-to-end scenarios, and a \<open>JSON.parse\<close> that knows them.\<close>

definition answerMath :: jsstring where
  \<open>answerMath = ascii ''[{"assignment":"Math HW","due_date":"2024-03-05","location":"Room 12","source":"notes.txt"}]''\<close>

definition answerFeb30 :: jsstring where
  \<open>answerFeb30 = ascii ''Here you go: [{"assignment":"X","due_date":"2024-02-30","location":null,"source":"f"}]''\<close>

definition objectMath :: json where
  "objectMath = JObject [(ascii ''assignment'', JString (ascii ''Math HW'')),
                         (ascii ''due_date'', JString (ascii ''2024-03-05'')),
                         (ascii ''location'', JString (ascii ''Room 12'')),
                         (ascii ''source'', JString (ascii ''notes.txt''))]"

definition objectFeb30 :: json where
  "objectFeb30 = JObject [(ascii ''assignment'', JString (ascii ''X'')),
                          (ascii ''due_date'', JString (ascii ''2024-02-30'')),
                          (ascii ''location'', JNull),
                          (ascii ''source'', JString (ascii ''f''))]"

definition answerBlank :: jsstring where
  \<open>answerBlank = ascii ''[{"assignment":"  ","source":"f"}]''\<close>

definition objectBlank :: json where
  "objectBlank = JObject [(ascii ''assignment'', JString (ascii ''  '')),
                          (ascii ''source'', JString (ascii ''f''))]"

definition sampleParse :: "jsstring \<Rightarrow> jsstring + json" where
  \<open>sampleParse s =
     (if s = ascii ''[]'' then Inr (JArray [])
      else if s = answerMath then Inr (JArray [objectMath])
      else if s = ascii ''[{"assignment":"X","due_date":"2024-02-30","location":null,"source":"f"}]''
      then Inr (JArray [objectFeb30])
      else if s = ascii ''{"items":1}'' then Inr (JObject [(ascii ''items'', JNumber 1)])
      else if s = answerBlank then Inr (JArray [objectBlank])
      else Inl (ascii ''Unexpected token o in JSON at position 1''))\<close>

definition sampleBook :: workbook where
  "sampleBook = \<lparr>SheetNames = [ascii ''S''],
                  Sheets = (\<lambda>name. [[ascii ''a'', ascii ''b''], [], [ascii ''c'']])\<rparr>"

definition sampleEnv :: env where
  "sampleEnv =
     \<lparr>xlsx_readFile = (\<lambda>path. Inr sampleBook),
      mammoth_extractRawText = (\<lambda>path. Inl (ascii ''not a docx file'')),
      pdfParse = (\<lambda>path. Inr []),
      readFile_utf8 = (\<lambda>path. Inr (ascii ''Math HW due 2024-03-05 in Room 12'')),
      tesseract_recognize = (\<lambda>path. Inl (ascii ''no image'')),
      create = (\<lambda>prompt attempt. Inr (Some answerMath)),
      JSON_parse = sampleParse,
      db_error = (\<lambda>n. None)\<rparr>"

text \<open>Workbooks of two sheets: cells that are words, cells that hold phrases, and a row with an
  empty cell; and the sample world reading a given workbook.\<close>

definition bookWords :: workbook where
  "bookWords = \<lparr>SheetNames = [ascii ''S'', ascii ''T''],
                 Sheets = (\<lambda>name. if name = ascii ''S''
                                    then [[ascii ''a'', ascii ''b''], [], [ascii ''c'']]
                                    else [[ascii ''d'']])\<rparr>"

definition bookPhrases :: workbook where
  "bookPhrases = \<lparr>SheetNames = [ascii ''Week 1'', ascii ''T''],
                   Sheets = (\<lambda>name. if name = ascii ''Week 1''
                                      then [[ascii ''Math HW'', ascii ''2024-03-05''], []]
                                      else [[ascii ''Room  12'']])\<rparr>"

definition bookHole :: workbook where
  "bookHole = \<lparr>SheetNames = [ascii ''S''],
                Sheets = (\<lambda>name. [[ascii ''a'', [], ascii ''b'']])\<rparr>"

definition reading :: "workbook \<Rightarrow> env" where
  "reading wb = sampleEnv\<lparr>xlsx_readFile := (\<lambda>path. Inr wb)\<rparr>"

text \<open>The same world with a database that refuses the second statement of the run.\<close>

definition refusing :: env where
  "refusing = sampleEnv\<lparr>db_error := (\<lambda>n. if n = 1 then Some (ascii ''connection lost'') else None)\<rparr>"

text \<open>The same world with a model that keeps giving one answer.\<close>

definition answering :: "jsstring \<Rightarrow> env" where
  "answering content = sampleEnv\<lparr>create := (\<lambda>prompt attempt. Inr (Some content))\<rparr>"


section \<open>TextNormalizer: facts about the stages\<close>

lemma runLength_Cons: "runLength c (x # xs) = (if x = c then Suc (runLength c xs) else 0)"
  by (simp add: runLength_def)

lemma runLength_Nil: "runLength c [] = 0"
  by (simp add: runLength_def)

lemma replaceRuns_fixed: "runsBelow c k xs \<Longrightarrow> replaceRuns c k r xs = xs"
  by (induction xs) (auto simp: runLength_def)

lemma replaceCRLF_fixed: "CR \<notin> set s \<Longrightarrow> replaceCRLF s = s"
  by (induction s rule: replaceCRLF.induct) auto

lemma replaceCR_fixed: "CR \<notin> set s \<Longrightarrow> replaceCR s = s"
  by (induction s) (auto simp: replaceCR_def)

lemma CR_replaceCR: "CR \<notin> set (replaceCR s)"
  by (auto simp: replaceCR_def)

lemma set_replaceRuns: "set (replaceRuns c k r xs) \<subseteq> set xs \<union> set r"
proof (induction c k r xs rule: replaceRuns.induct)
  case (1 c k r)
  then show ?case by simp
next
  case (2 c k r x xs)
  show ?case
  proof (cases "x = c \<and> k \<le> length (takeWhile (\<lambda>y. y = c) (x # xs))")
    case True
    have "set (dropWhile (\<lambda>y. y = c) (x # xs)) \<subseteq> set (x # xs)"
      by (rule set_dropWhileD[THEN subsetI]) 
    with 2(1)[OF True] True show ?thesis by auto
  next
    case False
    with 2(2)[OF False] show ?thesis by auto
  qed
qed

lemma runsBelow_notin: "c \<notin> set xs \<Longrightarrow> 0 < k \<Longrightarrow> runsBelow c k xs"
  by (induction xs) (auto simp: runLength_Cons)

lemma replaceRuns_Cons:
  "replaceRuns c k r (x # xs) =
     (if x = c \<and> k \<le> Suc (runLength c xs)
      then r @ replaceRuns c k r (dropWhile (\<lambda>y. y = c) xs)
      else x # replaceRuns c k r xs)"
  by (auto simp: runLength_def)

declare replaceRuns.simps(2) [simp del]

lemma runLength_replicate_append: "runLength c (replicate j c @ ys) = j + runLength c ys"
  by (induction j) (simp_all add: runLength_Cons)

lemma runLength_replaceRuns_same:
  "runLength c xs < k \<Longrightarrow> runLength c (replaceRuns c k r xs) = runLength c xs"
  by (induction xs) (auto simp: runLength_Cons runLength_Nil replaceRuns_Cons)

lemma replaceRuns_not_head:
  "runLength c xs = 0 \<Longrightarrow> runLength c (replaceRuns c k r xs) = 0"
  by (cases xs) (auto simp: runLength_Cons runLength_Nil replaceRuns_Cons split: if_splits)

lemma runLength_dropWhile: "runLength c (dropWhile (\<lambda>y. y = c) xs) = 0"
  by (induction xs) (auto simp: runLength_Cons runLength_Nil)

lemma runsBelow_replicate_append:
  "runLength c ys = 0 \<Longrightarrow> j < k \<Longrightarrow> runsBelow c k ys \<Longrightarrow> runsBelow c k (replicate j c @ ys)"
  by (induction j) (auto simp: runLength_Cons runLength_replicate_append)

lemma runsBelow_dropWhile: "runsBelow c k xs \<Longrightarrow> runsBelow c k (dropWhile P xs)"
  by (induction xs) auto

lemma runsBelow_replaceRuns:
  "j < k \<Longrightarrow> runsBelow c k (replaceRuns c k (replicate j c) xs)"
proof (induction c k "replicate j c" xs rule: replaceRuns.induct)
  case (1 c k)
  then show ?case by simp
next
  case (2 c k x xs)
  let ?f = "replaceRuns c k (replicate j c)"
  show ?case
  proof (cases "x = c \<and> k \<le> Suc (runLength c xs)")
    case True
    then have hit: "x = c \<and> k \<le> length (takeWhile (\<lambda>y. y = c) (x # xs))"
      by (simp add: runLength_def)
    let ?rest = "dropWhile (\<lambda>y. y = c) xs"
    have "runLength c (?f ?rest) = 0"
      by (rule replaceRuns_not_head) (rule runLength_dropWhile)
    moreover have "runsBelow c k (?f ?rest)"
      using 2(1)[OF hit] 2(3) hit by simp
    ultimately have "runsBelow c k (replicate j c @ ?f ?rest)"
      using 2(3) by (simp add: runsBelow_replicate_append)
    with True show ?thesis by (simp add: replaceRuns_Cons)
  next
    case False
    then have miss: "\<not> (x = c \<and> k \<le> length (takeWhile (\<lambda>y. y = c) (x # xs)))"
      by (simp add: runLength_def)
    have ih: "runsBelow c k (?f xs)"
      using 2(2)[OF miss] 2(3) by simp
    have "runLength c (x # ?f xs) < k"
    proof (cases "x = c")
      case True
      with False have lt: "Suc (runLength c xs) < k" by simp
      then have "runLength c (?f xs) = runLength c xs"
        by (intro runLength_replaceRuns_same) simp
      with lt True show ?thesis by (simp add: runLength_Cons)
    next
      case False
      with 2(3) show ?thesis by (simp add: runLength_Cons)
    qed
    with False ih show ?thesis by (auto simp: replaceRuns_Cons)
  qed
qed

text \<open>runs of another code unit are not lengthened\<close>

lemma runLength_replaceRuns_other:
  "d \<noteq> c \<Longrightarrow> r \<noteq> [] \<Longrightarrow> d \<notin> set r \<Longrightarrow> runLength d (replaceRuns c k r xs) \<le> runLength d xs"
proof (induction xs)
  case Nil
  then show ?case by (simp add: runLength_Nil)
next
  case (Cons x xs)
  from Cons.prems obtain e es where r: "r = e # es" and e: "e \<noteq> d"
    by (cases r) auto
  show ?case
    using Cons by (auto simp: replaceRuns_Cons runLength_Cons r e)
qed

lemma runsBelow_append_notin:
  "d \<notin> set r \<Longrightarrow> 0 < m \<Longrightarrow> runsBelow d m (r @ ys) = runsBelow d m ys"
  by (induction r) (auto simp: runLength_Cons)

lemma runsBelow_pos: "runsBelow d m xs \<Longrightarrow> xs \<noteq> [] \<Longrightarrow> 0 < m"
  by (cases xs) auto

lemma runsBelow_replaceRuns_other:
  assumes "d \<noteq> c" "r \<noteq> []" "d \<notin> set r" "0 < m"
  shows "runsBelow d m xs \<Longrightarrow> runsBelow d m (replaceRuns c k r xs)"
proof (induction xs rule: length_induct)
  case (1 xs)
  show ?case
  proof (cases xs)
    case Nil
    then show ?thesis by simp
  next
    case (Cons x xs')
    show ?thesis
    proof (cases "x = c \<and> k \<le> Suc (runLength c xs')")
      case True
      let ?rest = "dropWhile (\<lambda>y. y = c) xs'"
      have "length ?rest < length xs" using Cons by (simp add: length_dropWhile_le less_Suc_eq_le)
      moreover have "runsBelow d m ?rest"
        using 1(2) Cons by (simp add: runsBelow_dropWhile)
      ultimately have "runsBelow d m (replaceRuns c k r ?rest)" using 1(1) by blast
      then have "runsBelow d m (r @ replaceRuns c k r ?rest)"
        using assms by (simp add: runsBelow_append_notin)
      with True Cons show ?thesis by (simp add: replaceRuns_Cons)
    next
      case False
      have ih: "runsBelow d m (replaceRuns c k r xs')"
        using 1 Cons by simp
      have "runLength d (replaceRuns c k r xs') \<le> runLength d xs'"
        using assms by (intro runLength_replaceRuns_other)
      then have "runLength d (x # replaceRuns c k r xs') < m"
        using 1(2) Cons by (auto simp: runLength_Cons split: if_splits)
      with False ih Cons show ?thesis by (auto simp: replaceRuns_Cons)
    qed
  qed
qed

lemma runsBelow_append_left: "runsBelow c k (xs @ ys) \<Longrightarrow> runsBelow c k xs"
proof (induction xs)
  case Nil
  then show ?case by simp
next
  case (Cons x xs)
  have "runLength c (x # xs) \<le> runLength c (x # xs @ ys)"
    by (induction xs arbitrary: x) (auto simp: runLength_Cons runLength_Nil)
  with Cons show ?case by auto
qed

lemma runsBelow_append_right: "runsBelow c k (xs @ ys) \<Longrightarrow> runsBelow c k ys"
  by (induction xs) auto

lemma trim_decomp: "\<exists>pre post. s = pre @ trim s @ post"
proof -
  let ?u = "dropWhile is_ws s"
  have "s = takeWhile is_ws s @ ?u" by simp
  moreover have "?u = trim s @ rev (takeWhile is_ws (rev ?u))"
  proof -
    have "rev (rev ?u) = rev (takeWhile is_ws (rev ?u) @ dropWhile is_ws (rev ?u))"
      by (simp only: takeWhile_dropWhile_id)
    then show ?thesis by (simp only: trim_def rev_rev_ident rev_append)
  qed
  ultimately show ?thesis by metis
qed

lemma runsBelow_trim: "runsBelow c k s \<Longrightarrow> runsBelow c k (trim s)"
  using trim_decomp[of s] runsBelow_append_left runsBelow_append_right by metis

lemma set_trim: "set (trim s) \<subseteq> set s"
  using trim_decomp[of s] by (metis Un_iff set_append subsetI)

lemma last_dropWhile_ne: "dropWhile P xs \<noteq> [] \<Longrightarrow> last (dropWhile P xs) = last xs"
  by (induction xs) (auto split: if_splits)

lemma isTrimmed_trim: "isTrimmed (trim s)"
proof (cases "trim s")
  case Nil
  then show ?thesis by (simp add: isTrimmed_def)
next
  case (Cons x xs)
  let ?u = "dropWhile is_ws s"
  let ?v = "dropWhile is_ws (rev ?u)"
  have ne: "?v \<noteq> []" using Cons by (simp add: trim_def)
  then have "\<not> is_ws (hd ?v)" by (metis hd_dropWhile)
  then have l: "\<not> is_ws (last (trim s))" using ne by (simp add: trim_def last_rev)
  have une: "?u \<noteq> []" using ne by (cases ?u) simp_all
  have "last ?v = last (rev ?u)" using ne by (rule last_dropWhile_ne)
  then have "hd (trim s) = hd ?u" using une ne by (simp add: trim_def hd_rev last_rev)
  moreover have "\<not> is_ws (hd ?u)" using une by (metis hd_dropWhile)
  ultimately have "\<not> is_ws x" using Cons by simp
  with l Cons show ?thesis by (simp add: isTrimmed_def)
qed

lemma trim_fixed: "isTrimmed s \<Longrightarrow> trim s = s"
proof (cases s)
  case Nil
  then show ?thesis by (simp add: trim_def)
next
  case (Cons x xs)
  assume "isTrimmed s"
  with Cons have a: "\<not> is_ws x" and b: "\<not> is_ws (last s)" by (simp_all add: isTrimmed_def)
  from a Cons have "dropWhile is_ws s = s" by simp
  moreover have "dropWhile is_ws (rev s) = rev s"
    using b Cons by (metis dropWhile.simps(2) hd_rev list.exhaust_sel rev_is_Nil_conv list.distinct(1) dropWhile_eq_self_iff)
  ultimately show ?thesis by (simp add: trim_def)
qed

lemma replaceRuns_one_notin: "c \<notin> set r \<Longrightarrow> c \<notin> set (replaceRuns c (Suc 0) r xs)"
proof (induction xs rule: length_induct)
  case (1 xs)
  show ?case
  proof (cases xs)
    case Nil
    then show ?thesis by simp
  next
    case (Cons x xs')
    have "length (dropWhile (\<lambda>y. y = c) xs') < length xs"
      using Cons by (simp add: length_dropWhile_le less_Suc_eq_le)
    with 1 have "c \<notin> set (replaceRuns c (Suc 0) r (dropWhile (\<lambda>y. y = c) xs'))" by blast
    moreover have "c \<notin> set (replaceRuns c (Suc 0) r xs')" using 1 Cons by simp
    ultimately show ?thesis using Cons 1(2) by (auto simp: replaceRuns_Cons)
  qed
qed

lemma CR_replaceRuns: "CR \<notin> set xs \<Longrightarrow> CR \<notin> set r \<Longrightarrow> CR \<notin> set (replaceRuns c k r xs)"
  using set_replaceRuns[of c k r xs] by auto

lemma notin_trim: "c \<notin> set s \<Longrightarrow> c \<notin> set (trim s)"
  using set_trim[of s] by auto

lemma normalized_Nil: "normalized []"
  by (simp add: normalized_def isTrimmed_def)

lemma cleanText_normalized: "normalized (cleanText inp)"
proof (cases inp)
  case None
  then show ?thesis by (simp add: cleanText_def normalized_Nil)
next
  case (Some t)
  show ?thesis
  proof (cases "t = []")
    case True
    with Some show ?thesis by (simp add: cleanText_def normalized_Nil)
  next
    case False
    define s2 where "s2 = replaceCR (replaceCRLF t)"
    define s3 where "s3 = replaceRuns LF 3 [LF, LF] s2"
    define s4 where "s4 = replaceRuns TAB 1 [SP] s3"
    define s5 where "s5 = replaceRuns SP 2 [SP] s4"
    have out: "cleanText inp = trim s5"
      using Some False by (simp add: cleanText_def s2_def s3_def s4_def s5_def)
    have cr2: "CR \<notin> set s2" unfolding s2_def by (rule CR_replaceCR)
    have cr3: "CR \<notin> set s3" unfolding s3_def using cr2 by (intro CR_replaceRuns) simp_all
    have cr4: "CR \<notin> set s4" unfolding s4_def using cr3 by (intro CR_replaceRuns) simp_all
    have cr5: "CR \<notin> set s5" unfolding s5_def using cr4 by (intro CR_replaceRuns) simp_all
    have "runsBelow LF 3 (replaceRuns LF 3 (replicate 2 LF) s2)"
      by (rule runsBelow_replaceRuns) simp
    then have lf3: "runsBelow LF 3 s3" by (simp add: s3_def numeral_2_eq_2)
    have lf4: "runsBelow LF 3 s4" unfolding s4_def using lf3
      by (intro runsBelow_replaceRuns_other) simp_all
    have lf5: "runsBelow LF 3 s5" unfolding s5_def using lf4
      by (intro runsBelow_replaceRuns_other) simp_all
    have tab4: "TAB \<notin> set s4" unfolding s4_def One_nat_def
      by (rule replaceRuns_one_notin) simp
    have tab5: "TAB \<notin> set s5"
      using set_replaceRuns[of SP 2 "[SP]" s4] tab4 unfolding s5_def by auto
    have "runsBelow SP 2 (replaceRuns SP 2 (replicate 1 SP) s4)"
      by (rule runsBelow_replaceRuns) simp
    then have sp5: "runsBelow SP 2 s5" by (simp add: s5_def)
    show ?thesis
      unfolding out normalized_def
      using cr5 tab5 lf5 sp5 by (simp add: notin_trim runsBelow_trim isTrimmed_trim)
  qed
qed

lemma normalized_fixed:
  assumes "normalized s"
  shows "cleanText (Some s) = s"
proof (cases "s = []")
  case True
  then show ?thesis by (simp add: cleanText_def)
next
  case False
  from assms have cr: "CR \<notin> set s" and tab: "TAB \<notin> set s" and lf: "runsBelow LF 3 s"
    and sp: "runsBelow SP 2 s" and tr: "isTrimmed s"
    by (simp_all add: normalized_def)
  have "runsBelow TAB 1 s" using tab by (intro runsBelow_notin) simp_all
  then show ?thesis
    using False cr lf sp tr
    by (simp add: cleanText_def replaceCRLF_fixed replaceCR_fixed replaceRuns_fixed trim_fixed)
qed

text \<open>
  Claim C7.  The TextNormalizer is idempotent: for every input (a string, or the absent
  value), normalising the normalised text again returns the identical string.
\<close>

theorem cleanText_idempotent: "cleanText (Some (cleanText inp)) = cleanText inp"
  by (rule normalized_fixed) (rule cleanText_normalized)

section \<open>FormatRouter\<close>

lemma getProperty_not_own:
  "\<not> isSupported mimeType \<Longrightarrow>
     getProperty supportedTypes mimeType = Undefined
     \<or> (\<exists>shown. getProperty supportedTypes mimeType = Builtin shown)"
  by (auto simp: isSupported_def hasOwnProperty_def getProperty_def split: option.splits)

lemma processFile_Undefined:
  "getProperty supportedTypes mimeType = Undefined \<Longrightarrow>
     processFile E filePath mimeType = ([], Inl (ascii ''Unsupported file type: '' @ mimeType))"
  by (simp add: processFile_def)

lemma processFile_Builtin:
  "getProperty supportedTypes mimeType = Builtin shown \<Longrightarrow>
     processFile E filePath mimeType = ([], Inl (ascii ''No processor found for type: '' @ shown))"
  by (simp add: processFile_def)

text \<open>
  Claim C10.  For every content-type string that is not an own key of the supported-type map
  (\<open>isSupported\<close> is false), also a name inherited from \<open>Object.prototype\<close>, \<open>processFile\<close>
  throws and no strategy has been invoked.
\<close>

theorem processFile_not_own_key:
  assumes "\<not> isSupported mimeType"
  shows "\<exists>message. processFile E filePath mimeType = ([], Inl message)"
  using getProperty_not_own[OF assms] processFile_Undefined processFile_Builtin by blast

lemma constructor_lookup:
  "getProperty supportedTypes (ascii ''constructor'') = Builtin (ascii ''function Object() { [native code] }'')"
  by (simp add: getProperty_def supportedTypes_def objectPrototype_def ascii_def)

lemma constructor_not_supported: "\<not> isSupported (ascii ''constructor'')"
  by (simp add: isSupported_def hasOwnProperty_def supportedTypes_def ascii_def)

text \<open>Claim C10 at the content type \<open>constructor\<close>.\<close>

theorem processFile_not_own_key_witness:
  "\<not> isSupported (ascii ''constructor'')
   \<and> (\<exists>message. processFile sampleEnv (ascii ''/uploads/x'') (ascii ''constructor'') = ([], Inl message))"
  using processFile_not_own_key[OF constructor_not_supported, of sampleEnv "ascii ''/uploads/x''"]
    constructor_not_supported by blast


text \<open>
  At the content type \<open>constructor\<close> the lookup finds the inherited function, the test for an
  unsupported type passes it, and the \<open>switch\<close> throws its default error.
\<close>

lemma processFile_constructor:
  "processFile E filePath (ascii ''constructor'')
     = ([], Inl (ascii ''No processor found for type: function Object() { [native code] }''))
   \<and> processFile E filePath (ascii ''constructor'')
     \<noteq> ([], Inl (ascii ''Unsupported file type: constructor''))"
proof -
  have "processFile E filePath (ascii ''constructor'')
          = ([], Inl (ascii ''No processor found for type: ''
                      @ ascii ''function Object() { [native code] }''))"
    by (rule processFile_Builtin[OF constructor_lookup])
  then show ?thesis by (simp add: ascii_def)
qed

lemma zip_lookup: "getProperty supportedTypes (ascii ''application/zip'') = Undefined"
  by (simp add: getProperty_def supportedTypes_def objectPrototype_def nativeFunction_def ascii_def)


section \<open>Retry policy\<close>

declare makeRequestWithRetry.simps [simp del]

lemma retry_ok:
  "attemptRequest E prompt attempt = Inr parsedData \<Longrightarrow>
     makeRequestWithRetry E prompt attempt = ([Request attempt], Inr parsedData)"
  by (subst makeRequestWithRetry.simps) simp

lemma retry_again:
  "attemptRequest E prompt attempt = Inl message \<Longrightarrow> attempt < maxRetries \<Longrightarrow>
     makeRequestWithRetry E prompt attempt =
       (Request attempt # Wait (retryDelay * attempt)
          # fst (makeRequestWithRetry E prompt (attempt + 1)),
        snd (makeRequestWithRetry E prompt (attempt + 1)))"
  by (subst makeRequestWithRetry.simps) (simp add: case_prod_beta)

lemma retry_exhausted:
  "attemptRequest E prompt attempt = Inl message \<Longrightarrow> \<not> attempt < maxRetries \<Longrightarrow>
     makeRequestWithRetry E prompt attempt =
       ([Request attempt],
        Inl (ascii ''OpenAI request failed after '' @ showNat maxRetries
             @ ascii '' attempts: '' @ message))"
  by (subst makeRequestWithRetry.simps) simp

lemma exhausted_text:
  "ascii ''OpenAI request failed after '' @ showNat maxRetries @ ascii '' attempts: '' @ message
     = ascii ''OpenAI request failed after 3 attempts: '' @ message"
  by (simp add: maxRetries_def ascii_def)

text \<open>
  Claim C2.  Started at attempt 1, \<open>makeRequestWithRetry\<close> makes at most three requests; after
  a failed first or second attempt it waits the attempt number times the base delay and
  tries again; after a third failure it stops with one error that carries the message of
  the third failure.
\<close>

theorem makeRequestWithRetry_policy:
  "makeRequestWithRetry E prompt 1 =
     (case attemptRequest E prompt 1 of
        Inr parsedData \<Rightarrow> ([Request 1], Inr parsedData)
      | Inl m1 \<Rightarrow>
         (case attemptRequest E prompt 2 of
            Inr parsedData \<Rightarrow> ([Request 1, Wait (retryDelay * 1), Request 2], Inr parsedData)
          | Inl m2 \<Rightarrow>
             (case attemptRequest E prompt 3 of
                Inr parsedData \<Rightarrow>
                  ([Request 1, Wait (retryDelay * 1), Request 2, Wait (retryDelay * 2), Request 3],
                   Inr parsedData)
              | Inl m3 \<Rightarrow>
                  ([Request 1, Wait (retryDelay * 1), Request 2, Wait (retryDelay * 2), Request 3],
                   Inl (ascii ''OpenAI request failed after 3 attempts: '' @ m3)))))
   \<and> length (requests (fst (makeRequestWithRetry E prompt 1))) \<le> 3"
proof -
  have n12: "(1::nat) + 1 = 2" and n23: "(2::nat) + 1 = 3" by simp_all
  have lt1: "(1::nat) < maxRetries" and lt2: "(2::nat) < maxRetries"
    and ge3: "\<not> (3::nat) < maxRetries" by (simp_all add: maxRetries_def)
  let ?r1 = "makeRequestWithRetry E prompt 1"
  let ?r2 = "makeRequestWithRetry E prompt 2"
  let ?r3 = "makeRequestWithRetry E prompt 3"
  have r3: "?r3 = (case attemptRequest E prompt 3 of
                     Inr parsedData \<Rightarrow> ([Request 3], Inr parsedData)
                   | Inl m3 \<Rightarrow> ([Request 3],
                       Inl (ascii ''OpenAI request failed after 3 attempts: '' @ m3)))"
  proof (cases "attemptRequest E prompt 3")
    case (Inl m3)
    from retry_exhausted[OF Inl ge3] show ?thesis
      by (simp only: exhausted_text Inl sum.case)
  next
    case (Inr d)
    from retry_ok[OF Inr] show ?thesis by (simp only: Inr sum.case)
  qed
  have r2: "?r2 = (case attemptRequest E prompt 2 of
                     Inr parsedData \<Rightarrow> ([Request 2], Inr parsedData)
                   | Inl m2 \<Rightarrow> (Request 2 # Wait (retryDelay * 2) # fst ?r3, snd ?r3))"
  proof (cases "attemptRequest E prompt 2")
    case (Inl m2)
    from retry_again[OF Inl lt2] show ?thesis by (simp only: n23 Inl sum.case)
  next
    case (Inr d)
    from retry_ok[OF Inr] show ?thesis by (simp only: Inr sum.case)
  qed
  have r1: "?r1 = (case attemptRequest E prompt 1 of
                     Inr parsedData \<Rightarrow> ([Request 1], Inr parsedData)
                   | Inl m1 \<Rightarrow> (Request 1 # Wait (retryDelay * 1) # fst ?r2, snd ?r2))"
  proof (cases "attemptRequest E prompt 1")
    case (Inl m1)
    from retry_again[OF Inl lt1] show ?thesis by (simp only: n12 Inl sum.case)
  next
    case (Inr d)
    from retry_ok[OF Inr] show ?thesis by (simp only: Inr sum.case)
  qed
  show ?thesis
    unfolding r1 r2 r3 by (simp split: sum.splits)
qed

section \<open>Dates\<close>

lemma length_pad: "length (pad w n) = w"
  by (induction w arbitrary: n) simp_all

lemma parseDigits_snoc: "parseDigits (ds @ [c]) = 10 * parseDigits ds + unat (c - 0x30)"
  by (simp add: parseDigits_def)

lemma digit_value: "isDigit c \<Longrightarrow> unat (c - 0x30) < 10"
  unfolding isDigit_def by (auto simp: unat_sub word_le_nat_alt)

lemma digit_back: "isDigit c \<Longrightarrow> 0x30 + of_nat (unat (c - 0x30)) = c"
  by simp

lemma pad_parseDigits: "list_all isDigit ds \<Longrightarrow> pad (length ds) (parseDigits ds) = ds"
proof (induction ds rule: rev_induct)
  case Nil
  then show ?case by simp
next
  case (snoc c ds)
  then have d: "unat (c - 0x30) < 10" by (simp add: digit_value)
  from snoc show ?case
    using d by (simp add: parseDigits_snoc digit_back)
qed

lemma parseDigits_bound: "list_all isDigit ds \<Longrightarrow> parseDigits ds < 10 ^ length ds"
proof (induction ds rule: rev_induct)
  case Nil
  then show ?case by (simp add: parseDigits_def)
next
  case (snoc c ds)
  then have d: "unat (c - 0x30) < 10" by (simp add: digit_value)
  from snoc have "parseDigits ds < 10 ^ length ds" by simp
  with d show ?case by (simp add: parseDigits_snoc)
qed

lemma pad_inj: "a < 10 ^ w \<Longrightarrow> b < 10 ^ w \<Longrightarrow> pad w a = pad w b \<Longrightarrow> a = b"
proof (induction w arbitrary: a b)
  case 0
  then show ?case by simp
next
  case (Suc w)
  from Suc.prems have "pad w (a div 10) = pad w (b div 10)"
    and e: "(of_nat (a mod 10) :: jschar) = of_nat (b mod 10)"
    by (simp_all add: length_pad)
  moreover have "a div 10 < 10 ^ w" "b div 10 < 10 ^ w"
    using Suc.prems by (simp_all add: less_mult_imp_div_less)
  ultimately have "a div 10 = b div 10" using Suc.IH by blast
  moreover have "a mod 10 = b mod 10"
  proof -
    have "unat (of_nat (a mod 10) :: jschar) = a mod 10" "unat (of_nat (b mod 10) :: jschar) = b mod 10"
      by (simp_all add: unat_of_nat)
    with e show ?thesis by metis
  qed
  ultimately show ?case by (metis div_mult_mod_eq)
qed

lemma ten_elems:
  "length s = 10 \<Longrightarrow> \<exists>a b c d e f g h i j. s = [a, b, c, d, e, f, g, h, i, j]"
  by (simp add: eval_nat_numeral length_Suc_conv) blast

lemma daysInMonth_le: "daysInMonth y m \<le> 31"
  by (simp add: daysInMonth_def)

lemma roundTrips_calendarDate: "roundTrips s = calendarDate s"
proof (cases "dateRegex_test s")
  case False
  then show ?thesis by (simp add: roundTrips_def calendarDate_def)
next
  case True
  then have "length s = 10" by (simp add: dateRegex_test_def)
  from ten_elems[OF this] obtain a b c d e f g h i j where s: "s = [a, b, c, d, e, f, g, h, i, j]"
    by (elim exE)
  define ys where "ys = [a, b, c, d]"
  define ms where "ms = [f, g]"
  define ds where "ds = [i, j]"
  have parts: "take 4 s = ys" "take 2 (drop 5 s) = ms" "drop 8 s = ds"
    by (simp_all add: s ys_def ms_def ds_def)
  have dig: "list_all isDigit ys" "list_all isDigit ms" "list_all isDigit ds"
    and dash: "e = 0x2D" "h = 0x2D"
    using True unfolding dateRegex_test_def parts by (simp_all add: s)
  have whole: "s = ys @ [0x2D] @ ms @ [0x2D] @ ds"
    by (simp add: s ys_def ms_def ds_def dash)
  define y where "y = parseDigits ys"
  define m where "m = parseDigits ms"
  define dd where "dd = parseDigits ds"
  have len: "length ys = 4" "length ms = 2" "length ds = 2"
    by (simp_all add: ys_def ms_def ds_def)
  have py: "pad 4 y = ys"
    unfolding y_def len(1)[symmetric] by (rule pad_parseDigits[OF dig(1)])
  have pm: "pad 2 m = ms"
    unfolding m_def len(2)[symmetric] by (rule pad_parseDigits[OF dig(2)])
  have pd: "pad 2 dd = ds"
    unfolding dd_def len(3)[symmetric] by (rule pad_parseDigits[OF dig(3)])
  have mb: "m < 10 ^ 2"
    unfolding m_def len(2)[symmetric] by (rule parseDigits_bound[OF dig(2)])
  have cal: "calendarDate s = (1 \<le> m \<and> m \<le> 12 \<and> 1 \<le> dd \<and> dd \<le> daysInMonth y m)"
    using True by (simp add: calendarDate_def parts y_def m_def dd_def Let_def)
  have nd: "newDate s =
      (if m < 1 \<or> 12 < m \<or> dd < 1 \<or> 31 < dd then InvalidDate
       else if dd \<le> daysInMonth y m then Date y m dd
       else Date y (m + 1) (dd - daysInMonth y m))"
    by (simp add: newDate_def parts y_def m_def dd_def Let_def)
  show ?thesis
  proof (cases "m < 1 \<or> 12 < m \<or> dd < 1 \<or> 31 < dd")
    case True
    then have "newDate s = InvalidDate" by (simp add: nd)
    moreover have "\<not> calendarDate s"
      using True daysInMonth_le[of y m] unfolding cal by auto
    ultimately show ?thesis by (simp add: roundTrips_def)
  next
    case inrange: False
    show ?thesis
    proof (cases "dd \<le> daysInMonth y m")
      case True
      with inrange have "newDate s = Date y m dd" by (simp add: nd)
      moreover have "toISODate (Date y m dd) = s"
        by (simp add: py pm pd whole)
      moreover have "calendarDate s" using inrange True unfolding cal by auto
      ultimately show ?thesis using \<open>dateRegex_test s\<close> by (simp add: roundTrips_def)
    next
      case False
      with inrange have n: "newDate s = Date y (m + 1) (dd - daysInMonth y m)" by (simp add: nd)
      have "toISODate (Date y (m + 1) (dd - daysInMonth y m)) \<noteq> s"
      proof
        assume "toISODate (Date y (m + 1) (dd - daysInMonth y m)) = s"
        then have "pad 4 y @ [0x2D] @ pad 2 (m + 1) @ [0x2D] @ pad 2 (dd - daysInMonth y m)
                     = ys @ [0x2D] @ ms @ [0x2D] @ ds"
          using whole by simp
        then have "pad 2 (m + 1) = ms"
          using len by (simp add: append_eq_append_conv length_pad)
        then have "pad 2 (m + 1) = pad 2 m" using pm by simp
        moreover have "m + 1 < 10 ^ 2" using inrange by simp
        ultimately have "m + 1 = m" using mb pad_inj by blast
        then show False by simp
      qed
      moreover have "\<not> calendarDate s" using False unfolding cal by simp
      ultimately show ?thesis using n by (simp add: roundTrips_def)
    qed
  qed
qed

lemma validateDate_dateOrNull: "validateDate v = dateOrNull v"
proof -
  have "validateDate v = (case v of Some (JString s) \<Rightarrow> if roundTrips s then Some s else None | _ \<Rightarrow> None)"
    by (auto simp: validateDate_def roundTrips_def split: option.splits json.splits date.splits)
  then show ?thesis
    by (simp add: dateOrNull_def roundTrips_calendarDate split: option.splits json.splits)
qed

lemma feb30: "\<not> calendarDate (ascii ''2024-02-30'')"
  by (simp add: calendarDate_def ascii_def dateRegex_test_def isDigit_def parseDigits_def daysInMonth_def isLeapYear_def)

lemma mar05: "calendarDate (ascii ''2024-03-05'')"
  by (simp add: calendarDate_def ascii_def dateRegex_test_def isDigit_def parseDigits_def daysInMonth_def isLeapYear_def)

lemma feb30_runs_over: "newDate (ascii ''2024-02-30'') = Date 2024 3 1"
  by (simp add: newDate_def ascii_def parseDigits_def daysInMonth_def isLeapYear_def)

section \<open>Response validation\<close>

lemma validateString_valid:
  "nonEmptyString v \<Longrightarrow> \<exists>s. v = Some (JString s) \<and> validateString v fieldName = Inr (trim s)"
  by (auto simp: nonEmptyString_def validateString_def split: option.splits json.splits)

lemma validateString_invalid:
  "\<not> nonEmptyString v \<Longrightarrow>
     validateString v fieldName = Inl (fieldName @ ascii '' must be a non-empty string'')"
  by (auto simp: nonEmptyString_def validateString_def split: option.splits json.splits)

lemma validateItem_valid:
  assumes "validElement x"
  shows "\<exists>it. validateItem index x = Inr it
           \<and> due_date it = dateOrNull (getField x (ascii ''due_date''))"
proof -
  from assms obtain kvs where x: "x = JObject kvs"
    and a: "nonEmptyString (getField x (ascii ''assignment''))"
    and s: "nonEmptyString (getField x (ascii ''source''))"
    by (auto simp: validElement_def split: json.splits)
  from validateString_valid[OF a, of "ascii ''assignment''"]
  obtain sa where va: "validateString (getField x (ascii ''assignment'')) (ascii ''assignment'') = Inr (trim sa)"
    by blast
  from validateString_valid[OF s, of "ascii ''source''"]
  obtain ss where vs: "validateString (getField x (ascii ''source'')) (ascii ''source'') = Inr (trim ss)"
    by blast
  have obj: "typeofObject x" "x \<noteq> JNull" by (simp_all add: x)
  show ?thesis
    unfolding validateItem_def using obj va vs
    by (simp add: validateDate_dateOrNull)
qed

lemma validateItem_invalid:
  assumes "\<not> validElement x"
  shows "\<exists>message. validateItem index x = Inl message"
proof (cases "typeofObject x \<and> x \<noteq> JNull")
  case False
  then show ?thesis by (auto simp: validateItem_def)
next
  case True
  have fields: "\<not> nonEmptyString (getField x (ascii ''assignment''))
                \<or> \<not> nonEmptyString (getField x (ascii ''source''))"
  proof (cases x)
    case (JObject kvs)
    with assms show ?thesis by (simp add: validElement_def)
  qed (simp_all add: nonEmptyString_def)
  show ?thesis
  proof (cases "nonEmptyString (getField x (ascii ''assignment''))")
    case False
    from validateString_invalid[OF False] True show ?thesis
      by (simp add: validateItem_def)
  next
    case a: True
    with fields have s: "\<not> nonEmptyString (getField x (ascii ''source''))" by simp
    from validateString_valid[OF a, of "ascii ''assignment''"] validateString_invalid[OF s] True
    show ?thesis by (auto simp: validateItem_def)
  qed
qed

lemma mapItems_valid:
  "list_all validElement xs \<Longrightarrow>
     \<exists>items. mapItems index xs = Inr items
        \<and> map due_date items = map (\<lambda>x. dateOrNull (getField x (ascii ''due_date''))) xs"
proof (induction xs arbitrary: index)
  case Nil
  then show ?case by simp
next
  case (Cons x xs)
  from Cons.prems have "validElement x" and "list_all validElement xs" by simp_all
  from validateItem_valid[OF this(1), of index] Cons.IH[OF this(2), of "Suc index"]
  show ?case by auto
qed

lemma mapItems_invalid:
  "\<not> list_all validElement xs \<Longrightarrow> \<exists>message. mapItems index xs = Inl message"
proof (induction xs arbitrary: index)
  case Nil
  then show ?case by simp
next
  case (Cons x xs)
  show ?case
  proof (cases "validElement x")
    case False
    from validateItem_invalid[OF False, of index] show ?thesis by auto
  next
    case True
    with Cons.prems have "\<not> list_all validElement xs" by simp
    from Cons.IH[OF this, of "Suc index"] validateItem_valid[OF True, of index]
    show ?thesis by auto
  qed
qed

lemma response_array:
  "JSON_parse E (jsonString content) = Inr (JArray xs) \<Longrightarrow>
     parseAndValidateResponse E content =
       (case mapItems 0 xs of
          Inl message \<Rightarrow> Inl (ascii ''Invalid JSON response from OpenAI: '' @ message)
        | Inr validated \<Rightarrow> Inr validated)"
  by (simp add: parseAndValidateResponse_def)

lemma response_not_array:
  "JSON_parse E (jsonString content) = Inr parsed \<Longrightarrow> \<forall>xs. parsed \<noteq> JArray xs \<Longrightarrow>
     parseAndValidateResponse E content =
       Inl (ascii ''Invalid JSON response from OpenAI: '' @ ascii ''Response is not an array'')"
  by (cases parsed) (simp_all add: parseAndValidateResponse_def)

lemma response_unparsed:
  "JSON_parse E (jsonString content) = Inl message \<Longrightarrow>
     parseAndValidateResponse E content =
       Inl (ascii ''Invalid JSON response from OpenAI: '' @ message)"
  by (simp add: parseAndValidateResponse_def)

lemma response_accepted:
  assumes "JSON_parse E (jsonString content) = Inr parsed" and "acceptable parsed"
  shows "\<exists>xs items. parsed = JArray xs \<and> parseAndValidateResponse E content = Inr items
           \<and> map due_date items = map (\<lambda>x. dateOrNull (getField x (ascii ''due_date''))) xs"
proof -
  from assms(2) obtain xs where p: "parsed = JArray xs" and v: "list_all validElement xs"
    by (auto simp: acceptable_def split: json.splits)
  from mapItems_valid[OF v, of 0] response_array[of E content xs] assms(1) p
  show ?thesis by auto
qed

lemma response_rejected:
  assumes "JSON_parse E (jsonString content) = Inr parsed" and "\<not> acceptable parsed"
  shows "\<exists>message. parseAndValidateResponse E content = Inl message"
proof (cases "\<exists>xs. parsed = JArray xs")
  case True
  then obtain xs where p: "parsed = JArray xs" by blast
  with assms(2) have "\<not> list_all validElement xs" by (simp add: acceptable_def)
  from mapItems_invalid[OF this, of 0] response_array[of E content xs] assms(1) p
  show ?thesis by auto
next
  case False
  with response_not_array[OF assms(1)] show ?thesis by simp
qed

lemma response_Inr_parsed:
  assumes "parseAndValidateResponse E content = Inr items"
  shows "\<exists>parsed. JSON_parse E (jsonString content) = Inr parsed \<and> acceptable parsed"
proof (cases "JSON_parse E (jsonString content)")
  case (Inl message)
  from response_unparsed[OF Inl] assms show ?thesis by simp
next
  case (Inr parsed)
  show ?thesis
  proof (cases "acceptable parsed")
    case True
    with Inr show ?thesis by simp
  next
    case False
    from response_rejected[OF Inr False] assms show ?thesis by auto
  qed
qed

lemma dateOrNull_roundTrips:
  "(case dateOrNull v of None \<Rightarrow> True | Some s \<Rightarrow> roundTrips s)"
  by (simp add: dateOrNull_def roundTrips_calendarDate split: option.splits json.splits)

text \<open>
  Claim C3.  In an accepted response every item's date is null or a string of the form
  YYYY-MM-DD that round-trips through the runtime's date; each item carries the date of its
  element if that names a day of the calendar and null otherwise; and a response whose
  elements are objects with non-empty \<open>assignment\<close> and \<open>source\<close> is accepted whatever its date
  fields hold.
\<close>

theorem dates_valid_or_null:
  "(parseAndValidateResponse E content = Inr items \<longrightarrow>
      list_all (\<lambda>it. case due_date it of None \<Rightarrow> True | Some s \<Rightarrow> roundTrips s) items
      \<and> (\<exists>xs. JSON_parse E (jsonString content) = Inr (JArray xs)
            \<and> map due_date items = map (\<lambda>x. dateOrNull (getField x (ascii ''due_date''))) xs))
   \<and> (JSON_parse E (jsonString content) = Inr (JArray ys) \<and> list_all validElement ys \<longrightarrow>
        (\<exists>accepted. parseAndValidateResponse E content = Inr accepted
           \<and> map due_date accepted = map (\<lambda>x. dateOrNull (getField x (ascii ''due_date''))) ys))"
proof (intro conjI impI)
  assume ok: "parseAndValidateResponse E content = Inr items"
  from response_Inr_parsed[OF ok] obtain parsed
    where p: "JSON_parse E (jsonString content) = Inr parsed" and a: "acceptable parsed" by blast
  from response_accepted[OF p a] ok obtain xs where x: "parsed = JArray xs"
    and m: "map due_date items = map (\<lambda>x. dateOrNull (getField x (ascii ''due_date''))) xs"
    by auto
  from p x m
  show "\<exists>xs. JSON_parse E (jsonString content) = Inr (JArray xs)
            \<and> map due_date items = map (\<lambda>x. dateOrNull (getField x (ascii ''due_date''))) xs"
    by blast
  have "list_all (\<lambda>d. case d of None \<Rightarrow> True | Some s \<Rightarrow> roundTrips s) (map due_date items)"
    unfolding m using dateOrNull_roundTrips by (simp add: list_all_iff)
  then show "list_all (\<lambda>it. case due_date it of None \<Rightarrow> True | Some s \<Rightarrow> roundTrips s) items"
    by (simp add: list_all_iff)
next
  assume h: "JSON_parse E (jsonString content) = Inr (JArray ys) \<and> list_all validElement ys"
  then have "acceptable (JArray ys)" by (simp add: acceptable_def)
  from response_accepted[OF conjunct1[OF h] this]
  show "\<exists>accepted. parseAndValidateResponse E content = Inr accepted
           \<and> map due_date accepted = map (\<lambda>x. dateOrNull (getField x (ascii ''due_date''))) ys"
    by auto
qed

lemma jsonString_answerFeb30:
  \<open>jsonString answerFeb30 = ascii ''[{"assignment":"X","due_date":"2024-02-30","location":null,"source":"f"}]''\<close>
  by (simp add: jsonString_def matchJsonArray_def answerFeb30_def ascii_def)

lemma parse_answerFeb30: "JSON_parse sampleEnv (jsonString answerFeb30) = Inr (JArray [objectFeb30])"
  unfolding jsonString_answerFeb30
  by (simp add: sampleEnv_def sampleParse_def answerMath_def ascii_def)

lemma valid_objectFeb30: "validElement objectFeb30"
  by (simp add: validElement_def objectFeb30_def nonEmptyString_def trim_def is_ws_def ascii_def)

lemma date_objectFeb30: "dateOrNull (getField objectFeb30 (ascii ''due_date'')) = None"
  by (simp add: objectFeb30_def dateOrNull_def feb30 ascii_def[of "''due_date''"] ascii_def[of "''assignment''"])

lemma feb30_item:
  "parseAndValidateResponse sampleEnv answerFeb30
         = Inr [\<lparr>assignment = ascii ''X'', due_date = None, location = None, source = ascii ''f''\<rparr>]"
  by (simp add: parseAndValidateResponse_def parse_answerFeb30 validateItem_def objectFeb30_def
      validateString_def validateOptionalString_def validateDate_dateOrNull dateOrNull_def feb30
      trim_def is_ws_def ascii_def[of "''assignment''"] ascii_def[of "''source''"] ascii_def[of "''due_date''"]
      ascii_def[of "''location''"]  ascii_def[of "''X''"] ascii_def[of "''f''"])

text \<open>Claim C3 at an answer whose date is 2024-02-30: the item is kept, its date is null.\<close>

theorem dates_valid_or_null_witness:
  "parseAndValidateResponse sampleEnv answerFeb30
     = Inr [\<lparr>assignment = ascii ''X'', due_date = None, location = None, source = ascii ''f''\<rparr>]
   \<and> JSON_parse sampleEnv (jsonString answerFeb30) = Inr (JArray [objectFeb30])
   \<and> list_all validElement [objectFeb30]
   \<and> dateOrNull (getField objectFeb30 (ascii ''due_date'')) = None
   \<and> (\<exists>accepted. parseAndValidateResponse sampleEnv answerFeb30 = Inr accepted
         \<and> map due_date accepted = [None])"
proof -
  from dates_valid_or_null[of sampleEnv answerFeb30
      "[\<lparr>assignment = ascii ''X'', due_date = None, location = None, source = ascii ''f''\<rparr>]"
      "[objectFeb30]"]
  have "\<exists>accepted. parseAndValidateResponse sampleEnv answerFeb30 = Inr accepted
         \<and> map due_date accepted = [None]"
    by (simp add: parse_answerFeb30 valid_objectFeb30 date_objectFeb30)
  then show ?thesis
    using feb30_item parse_answerFeb30 valid_objectFeb30 date_objectFeb30 by simp
qed

lemma attemptRequest_content:
  "create E prompt attempt = Inr (Some content) \<Longrightarrow> content \<noteq> [] \<Longrightarrow>
     attemptRequest E prompt attempt = parseAndValidateResponse E content"
  by (simp add: attemptRequest_def)

lemma retry_head: "\<exists>rest. fst (makeRequestWithRetry E prompt attempt) = Request attempt # rest"
  by (subst makeRequestWithRetry.simps) (simp add: case_prod_beta split: sum.splits)

text \<open>
  Claim C4.  Given what \<open>JSON.parse\<close> returns, the response is accepted exactly if that is an
  array whose elements are all objects with \<open>assignment\<close> and \<open>source\<close> non-empty strings
  after trimming, and is otherwise a failure of the whole response; the empty array is
  accepted with no items; a failed validation fails the attempt, which is followed by the
  wait and the next request while attempts remain and by the final error otherwise.
\<close>

theorem validation_fail_fast:
  assumes "JSON_parse E (jsonString content) = Inr parsed"
  shows "((\<exists>items. parseAndValidateResponse E content = Inr items) = acceptable parsed)
    \<and> ((\<exists>message. parseAndValidateResponse E content = Inl message) = (\<not> acceptable parsed))
    \<and> (parsed = JArray [] \<longrightarrow> parseAndValidateResponse E content = Inr [])
    \<and> (\<not> acceptable parsed \<and> create E prompt attempt = Inr (Some content) \<and> content \<noteq> [] \<longrightarrow>
          (\<exists>message. attemptRequest E prompt attempt = Inl message)
          \<and> (attempt < maxRetries \<longrightarrow>
                (\<exists>rest. fst (makeRequestWithRetry E prompt attempt)
                   = Request attempt # Wait (retryDelay * attempt) # Request (attempt + 1) # rest))
          \<and> (\<not> attempt < maxRetries \<longrightarrow>
                (\<exists>message. makeRequestWithRetry E prompt attempt = ([Request attempt], Inl message))))"
proof -
  have yes: "acceptable parsed \<Longrightarrow> \<exists>items. parseAndValidateResponse E content = Inr items"
    using response_accepted[OF assms] by blast
  have no: "\<not> acceptable parsed \<Longrightarrow> \<exists>message. parseAndValidateResponse E content = Inl message"
    using response_rejected[OF assms] by blast
  have a: "(\<exists>items. parseAndValidateResponse E content = Inr items) = acceptable parsed"
    using yes no by (cases "acceptable parsed") auto
  have b: "(\<exists>message. parseAndValidateResponse E content = Inl message) = (\<not> acceptable parsed)"
    using yes no by (cases "acceptable parsed") auto
  have c: "parsed = JArray [] \<longrightarrow> parseAndValidateResponse E content = Inr []"
    using response_array[of E content "[]"] assms by simp
  have d: "(\<exists>message. attemptRequest E prompt attempt = Inl message)
          \<and> (attempt < maxRetries \<longrightarrow>
                (\<exists>rest. fst (makeRequestWithRetry E prompt attempt)
                   = Request attempt # Wait (retryDelay * attempt) # Request (attempt + 1) # rest))
          \<and> (\<not> attempt < maxRetries \<longrightarrow>
                (\<exists>message. makeRequestWithRetry E prompt attempt = ([Request attempt], Inl message)))"
    if h: "\<not> acceptable parsed \<and> create E prompt attempt = Inr (Some content) \<and> content \<noteq> []"
  proof -
    from h no obtain message where m: "parseAndValidateResponse E content = Inl message" by blast
    from h have "attemptRequest E prompt attempt = parseAndValidateResponse E content"
      by (simp add: attemptRequest_content)
    with m have f: "attemptRequest E prompt attempt = Inl message" by simp
    obtain rest where r: "fst (makeRequestWithRetry E prompt (attempt + 1)) = Request (attempt + 1) # rest"
      using retry_head by blast
    show ?thesis
      using f retry_again[OF f] retry_exhausted[OF f] r by auto
  qed
  from a b c d show ?thesis by blast
qed

lemma jsonString_bracketed: "jsonString answerBlank = answerBlank" "jsonString (ascii ''[]'') = ascii ''[]''"
  by (simp_all add: jsonString_def matchJsonArray_def answerBlank_def ascii_def)

lemma parse_answerBlank: "JSON_parse (answering answerBlank) (jsonString answerBlank) = Inr (JArray [objectBlank])"
  unfolding jsonString_bracketed
  by (simp add: answering_def sampleEnv_def sampleParse_def answerBlank_def answerMath_def ascii_def)

lemma parse_empty: "JSON_parse sampleEnv (jsonString (ascii ''[]'')) = Inr (JArray [])"
  unfolding jsonString_bracketed
  by (simp add: sampleEnv_def sampleParse_def)

lemma objectBlank_invalid: "\<not> acceptable (JArray [objectBlank])"
  by (simp add: acceptable_def validElement_def objectBlank_def nonEmptyString_def trim_def is_ws_def ascii_def)

text \<open>Claim C4 at an answer whose description is blank, and at the empty array.\<close>

theorem validation_fail_fast_witness:
  "JSON_parse (answering answerBlank) (jsonString answerBlank) = Inr (JArray [objectBlank])
   \<and> \<not> acceptable (JArray [objectBlank])
   \<and> create (answering answerBlank) [] 1 = Inr (Some answerBlank)
   \<and> create (answering answerBlank) [] 3 = Inr (Some answerBlank) \<and> answerBlank \<noteq> []
   \<and> 1 < maxRetries \<and> \<not> 3 < maxRetries
   \<and> (\<exists>message. parseAndValidateResponse (answering answerBlank) answerBlank = Inl message)
   \<and> (\<exists>rest. fst (makeRequestWithRetry (answering answerBlank) [] 1)
          = Request 1 # Wait (retryDelay * 1) # Request 2 # rest)
   \<and> (\<exists>message. makeRequestWithRetry (answering answerBlank) [] 3 = ([Request 3], Inl message))
   \<and> JSON_parse sampleEnv (jsonString (ascii ''[]'')) = Inr (JArray [])
   \<and> parseAndValidateResponse sampleEnv (ascii ''[]'') = Inr []"
proof -
  have c: "create (answering answerBlank) [] 1 = Inr (Some answerBlank)"
    "create (answering answerBlank) [] 3 = Inr (Some answerBlank)" "answerBlank \<noteq> []"
    by (simp_all add: answering_def answerBlank_def ascii_def)
  have lt: "1 < maxRetries" "\<not> 3 < maxRetries" by (simp_all add: maxRetries_def)
  have n: "(1::nat) + 1 = 2" by simp
  from validation_fail_fast[OF parse_answerBlank, of "[]" 1] objectBlank_invalid c lt
  have "(\<exists>message. parseAndValidateResponse (answering answerBlank) answerBlank = Inl message)
   \<and> (\<exists>rest. fst (makeRequestWithRetry (answering answerBlank) [] 1)
          = Request 1 # Wait (retryDelay * 1) # Request 2 # rest)"
    by (simp only: n) blast
  moreover from validation_fail_fast[OF parse_answerBlank, of "[]" 3] objectBlank_invalid c lt
  have "\<exists>message. makeRequestWithRetry (answering answerBlank) [] 3 = ([Request 3], Inl message)"
    by blast
  moreover from validation_fail_fast[OF parse_empty, of "[]" 1]
  have "parseAndValidateResponse sampleEnv (ascii ''[]'') = Inr []" by blast
  ultimately show ?thesis
    using parse_answerBlank objectBlank_invalid c lt parse_empty by blast
qed

section \<open>Three failed attempts\<close>

lemma attempt_not_json:
  "attemptRequest (answering (ascii ''not json at all'')) prompt attempt
     = Inl (ascii ''Invalid JSON response from OpenAI: Unexpected token o in JSON at position 1'')"
proof -
  have j: "jsonString (ascii ''not json at all'') = ascii ''not json at all''"
    by (simp add: jsonString_def matchJsonArray_def ascii_def)
  have "JSON_parse (answering (ascii ''not json at all'')) (jsonString (ascii ''not json at all''))
          = Inl (ascii ''Unexpected token o in JSON at position 1'')"
    unfolding j
    by (simp add: answering_def sampleEnv_def sampleParse_def answerMath_def answerBlank_def ascii_def)
  from response_unparsed[OF this]
  have "parseAndValidateResponse (answering (ascii ''not json at all'')) (ascii ''not json at all'')
          = Inl (ascii ''Invalid JSON response from OpenAI: '' @ ascii ''Unexpected token o in JSON at position 1'')" .
  moreover have "attemptRequest (answering (ascii ''not json at all'')) prompt attempt
     = parseAndValidateResponse (answering (ascii ''not json at all'')) (ascii ''not json at all'')"
    by (rule attemptRequest_content) (simp_all add: answering_def ascii_def)
  ultimately show ?thesis by (simp add: ascii_def)
qed

text \<open>Claim C2 with a model that answers \<open>not json at all\<close> three times.\<close>

theorem makeRequestWithRetry_policy_witness:
  "makeRequestWithRetry (answering (ascii ''not json at all'')) [] 1
     = ([Request 1, Wait 1000, Request 2, Wait 2000, Request 3],
        Inl (ascii ''OpenAI request failed after 3 attempts: Invalid JSON response from OpenAI: Unexpected token o in JSON at position 1''))"
proof -
  let ?E = "answering (ascii ''not json at all'')"
  let ?m = "ascii ''Invalid JSON response from OpenAI: Unexpected token o in JSON at position 1''"
  have a: "attemptRequest ?E [] 1 = Inl ?m" "attemptRequest ?E [] 2 = Inl ?m"
    "attemptRequest ?E [] 3 = Inl ?m"
    by (rule attempt_not_json)+
  from makeRequestWithRetry_policy[of ?E "[]"]
  have "makeRequestWithRetry ?E [] 1
          = ([Request 1, Wait (retryDelay * 1), Request 2, Wait (retryDelay * 2), Request 3],
             Inl (ascii ''OpenAI request failed after 3 attempts: '' @ ?m))"
    by (simp only: a sum.case)
  then show ?thesis by (simp add: retryDelay_def ascii_def)
qed

section \<open>IngestionPipeline: the record of a run\<close>

subsection \<open>Histories of concatenated records\<close>

lemma statusHistory_append: "statusHistory (xs @ ys) = statusHistory xs @ statusHistory ys"
  by (induction xs rule: statusHistory.induct) (simp_all split: option.splits)

lemma afterFailure_append:
  "afterFailure (xs @ ys) =
     (case afterFailure xs of Some (q, rest) \<Rightarrow> Some (q, rest @ ys) | None \<Rightarrow> afterFailure ys)"
  by (induction xs rule: afterFailure.induct) simp_all

lemma processFile_quiet:
  "statusHistory (fst (processFile E filePath mimeType)) = []
   \<and> afterFailure (fst (processFile E filePath mimeType)) = None"
  by (simp add: processFile_def Let_def)

lemma retry_quiet:
  "statusHistory (fst (makeRequestWithRetry E prompt attempt)) = []
   \<and> afterFailure (fst (makeRequestWithRetry E prompt attempt)) = None"
proof (induction E prompt attempt rule: makeRequestWithRetry.induct)
  case (1 E prompt attempt)
  show ?case
  proof (cases "attemptRequest E prompt attempt")
    case (Inr parsedData)
    then show ?thesis by (simp add: retry_ok)
  next
    case (Inl message)
    show ?thesis
    proof (cases "attempt < maxRetries")
      case True
      from "1"[OF Inl True refl] retry_again[OF Inl True] show ?thesis by simp
    next
      case False
      from retry_exhausted[OF Inl False] show ?thesis by simp
    qed
  qed
qed

lemma extract_quiet:
  "statusHistory (fst (extractScheduleData E t n)) = []
   \<and> afterFailure (fst (extractScheduleData E t n)) = None"
  by (simp add: extractScheduleData_def retry_quiet)

subsection \<open>One statement\<close>

lemma query_events:
  "events (snd (query E q r)) = events r @ [Query q (db_error E (issued r) = None)]"
  by (cases q) (simp_all add: query_def split: option.splits)

lemma query_result:
  "fst (query E q r) = (case db_error E (issued r) of Some message \<Rightarrow> Inl message | None \<Rightarrow> Inr ())"
  by (simp add: query_def split: option.splits)

lemma query_fileRecord:
  "fileRecord (snd (query E q r)) = (if db_error E (issued r) = None then fileRecord (applyStmt q r) else fileRecord r)"
  by (cases q) (simp_all add: query_def split: option.splits)

subsection \<open>The inserts\<close>

lemma insert_events:
  "\<exists>ins. events (snd (insertAssignments E items r)) = events r @ ins
     \<and> statusHistory ins = []
     \<and> (case fst (insertAssignments E items r) of
           Inr u \<Rightarrow> afterFailure ins = None
         | Inl message \<Rightarrow> (\<exists>i. afterFailure ins = Some (InsertAssignment i, [])))"
proof (induction items arbitrary: r)
  case Nil
  show ?case by simp
next
  case (Cons i rest)
  show ?case
  proof (cases "db_error E (issued r)")
    case (Some message)
    then have "insertAssignments E (i # rest) r
                 = (Inl message, r\<lparr>issued := Suc (issued r), events := events r @ [Query (InsertAssignment i) False]\<rparr>)"
      by (simp add: query_def)
    then show ?thesis by simp
  next
    case None
    define r' where "r' = snd (query E (InsertAssignment i) r)"
    have q: "query E (InsertAssignment i) r = (Inr (), r')"
      using None by (simp add: r'_def query_def)
    have e: "events r' = events r @ [Query (InsertAssignment i) True]"
      unfolding r'_def query_events using None by simp
    from Cons.IH[of r'] obtain ins where
      i1: "events (snd (insertAssignments E rest r')) = events r' @ ins"
      and i2: "statusHistory ins = []"
      and i3: "(case fst (insertAssignments E rest r') of
           Inr u \<Rightarrow> afterFailure ins = None
         | Inl message \<Rightarrow> (\<exists>i. afterFailure ins = Some (InsertAssignment i, [])))"
      by blast
    have s: "insertAssignments E (i # rest) r = insertAssignments E rest r'"
      using q by simp
    show ?thesis
      unfolding s
      by (rule exI[of _ "Query (InsertAssignment i) True # ins"])
         (use i1 i2 i3 e in \<open>simp split: sum.splits\<close>)
  qed
qed

subsection \<open>The try block\<close>

lemma tryBlock_events:
  "\<exists>evs. events (snd (tryBlock E filePath mimeType originalName r)) = events r @ evs
     \<and> ((fst (tryBlock E filePath mimeType originalName r) = Inr ()
          \<and> statusHistory evs = [text_extracted, completed] \<and> afterFailure evs = None)
        \<or> ((\<exists>message. fst (tryBlock E filePath mimeType originalName r) = Inl message)
            \<and> (statusHistory evs = [] \<or> statusHistory evs = [text_extracted])
            \<and> (afterFailure evs = None \<or> (\<exists>q. interrupted q \<and> afterFailure evs = Some (q, [])))))"
proof (cases "processFile E filePath mimeType")
  case (Pair invoked outcome)
  have quiet: "statusHistory invoked = []" "afterFailure invoked = None"
    using processFile_quiet[of E filePath mimeType] Pair by simp_all
  note app = statusHistory_append afterFailure_append
  show ?thesis
  proof (cases outcome)
    case (Inl message)
    with Pair have "tryBlock E filePath mimeType originalName r
                      = (Inl message, r\<lparr>events := events r @ invoked\<rparr>)"
      by (simp add: tryBlock_def)
    then show ?thesis by (simp add: quiet)
  next
    case (Inr extractedText)
    define r0 where "r0 = r\<lparr>events := events r @ invoked\<rparr>"
    define q1 where "q1 = UpdateExtractedText extractedText"
    define r1 where "r1 = snd (query E q1 r0)"
    have e1: "events r1 = events r @ invoked @ [Query q1 (db_error E (issued r0) = None)]"
      by (simp add: r1_def query_events r0_def)
    have w1: "statusWritten q1 = Some text_extracted" "interrupted q1"
      by (simp_all add: q1_def interrupted_def)
    show ?thesis
    proof (cases "db_error E (issued r0)")
      case (Some message)
      then have "query E q1 r0 = (Inl message, r1)"
        by (simp add: r1_def query_def)
      with Pair Inr have t: "tryBlock E filePath mimeType originalName r = (Inl message, r1)"
        by (simp add: tryBlock_def r0_def q1_def)
      have "events r1 = events r @ (invoked @ [Query q1 False])"
        using e1 Some by simp
      moreover have "statusHistory (invoked @ [Query q1 False]) = []"
        "afterFailure (invoked @ [Query q1 False]) = Some (q1, [])"
        by (simp_all add: app quiet)
      ultimately show ?thesis
        unfolding t using w1(2) by (intro exI[of _ "invoked @ [Query q1 False]"]) auto
    next
      case None
      then have qq: "query E q1 r0 = (Inr (), r1)"
        by (simp add: r1_def query_def)
      obtain requested extracted
        where x: "extractScheduleData E extractedText originalName = (requested, extracted)"
        by (cases "extractScheduleData E extractedText originalName")
      have xq: "statusHistory requested = []" "afterFailure requested = None"
        using extract_quiet[of E extractedText originalName] x by simp_all
      define done1 where "done1 = invoked @ [Query q1 True] @ requested"
      have d1: "statusHistory done1 = [text_extracted]" "afterFailure done1 = None"
        by (simp_all add: done1_def app quiet xq w1)
      show ?thesis
      proof (cases extracted)
        case (Inl message)
        with Pair Inr qq x have t: "tryBlock E filePath mimeType originalName r
            = (Inl message, r1\<lparr>events := events r1 @ requested\<rparr>)"
          by (simp add: tryBlock_def r0_def q1_def)
        have "events (r1\<lparr>events := events r1 @ requested\<rparr>) = events r @ done1"
          using e1 None by (simp add: done1_def)
        then show ?thesis
          unfolding t using d1 by (intro exI[of _ done1]) auto
      next
        case (Inr scheduleData)
        define r2 where "r2 = r1\<lparr>events := events r1 @ requested\<rparr>"
        define r3 where "r3 = snd (insertAssignments E scheduleData r2)"
        have e2: "events r2 = events r @ done1"
          using e1 None by (simp add: r2_def done1_def)
        from insert_events[of E scheduleData r2] obtain ins where
          i1: "events r3 = events r2 @ ins" and i2: "statusHistory ins = []"
          and i3: "(case fst (insertAssignments E scheduleData r2) of
             Inr u \<Rightarrow> afterFailure ins = None
           | Inl message \<Rightarrow> (\<exists>i. afterFailure ins = Some (InsertAssignment i, [])))"
          unfolding r3_def by blast
        have e3: "events r3 = events r @ (done1 @ ins)"
          using i1 e2 by simp
        show ?thesis
        proof (cases "fst (insertAssignments E scheduleData r2)")
          case (Inl message)
          then have "insertAssignments E scheduleData r2 = (Inl message, r3)"
            by (simp add: r3_def prod_eq_iff)
          with Pair \<open>outcome = Inr extractedText\<close> qq x Inr
          have t: "tryBlock E filePath mimeType originalName r = (Inl message, r3)"
            by (simp add: tryBlock_def r0_def q1_def r2_def)
          from i3 Inl obtain i where a: "afterFailure ins = Some (InsertAssignment i, [])" by auto
          have "interrupted (InsertAssignment i)" by (simp add: interrupted_def)
          moreover have "statusHistory (done1 @ ins) = [text_extracted]"
            "afterFailure (done1 @ ins) = Some (InsertAssignment i, [])"
            by (simp_all add: app d1 i2 a)
          ultimately show ?thesis
            unfolding t using e3 by (intro exI[of _ "done1 @ ins"]) auto
        next
          case (Inr u)
          then have "insertAssignments E scheduleData r2 = (Inr (), r3)"
            by (simp add: r3_def prod_eq_iff)
          with Pair \<open>outcome = Inr extractedText\<close> qq x \<open>extracted = Inr scheduleData\<close>
          have t: "tryBlock E filePath mimeType originalName r = query E UpdateCompleted r3"
            by (simp add: tryBlock_def r0_def q1_def r2_def)
          from i3 Inr have a: "afterFailure ins = None" by simp
          define ok where "ok = (db_error E (issued r3) = None)"
          have e4: "events (snd (query E UpdateCompleted r3))
                      = events r @ ((done1 @ ins) @ [Query UpdateCompleted ok])"
            by (simp add: query_events e3 ok_def)
          have f4: "fst (query E UpdateCompleted r3) = Inr ()" if ok
            using that by (simp add: query_result ok_def)
          have g4: "\<exists>message. fst (query E UpdateCompleted r3) = Inl message" if "\<not> ok"
            using that by (auto simp: query_result ok_def)
          have h4: "statusHistory ((done1 @ ins) @ [Query UpdateCompleted True])
                      = [text_extracted, completed]"
            "afterFailure ((done1 @ ins) @ [Query UpdateCompleted True]) = None"
            "statusHistory ((done1 @ ins) @ [Query UpdateCompleted False]) = [text_extracted]"
            "afterFailure ((done1 @ ins) @ [Query UpdateCompleted False])
               = Some (UpdateCompleted, [])"
            by (simp_all add: app d1 i2 a)
          have "interrupted UpdateCompleted" by (simp add: interrupted_def)
          then show ?thesis
            unfolding t
            using e4 f4 g4 h4
            by (intro exI[of _ "(done1 @ ins) @ [Query UpdateCompleted ok]"]) (cases ok; auto)
        qed
      qed
    qed
  qed
qed

subsection \<open>The status column follows the writes\<close>

lemma stored_query: "stored r \<Longrightarrow> stored (snd (query E q r))"
  by (cases q)
     (auto simp: stored_def consistent_def query_def statusHistory_append
           split: option.splits)

lemma stored_quiet: "stored r \<Longrightarrow> statusHistory xs = [] \<Longrightarrow> stored (r\<lparr>events := events r @ xs\<rparr>)"
  by (auto simp: stored_def consistent_def statusHistory_append split: option.splits)

lemma stored_inserts: "stored r \<Longrightarrow> stored (snd (insertAssignments E items r))"
proof (induction items arbitrary: r)
  case Nil
  then show ?case by simp
next
  case (Cons i rest)
  have s: "stored (snd (query E (InsertAssignment i) r))"
    using Cons.prems by (rule stored_query)
  show ?case
  proof (cases "query E (InsertAssignment i) r")
    case (Pair res r')
    with s have "stored r'" by simp
    with Cons.IH[of r'] Pair show ?thesis
      by (cases res) simp_all
  qed
qed

lemma stored_tryBlock:
  assumes "stored r"
  shows "stored (snd (tryBlock E filePath mimeType originalName r))"
proof (cases "processFile E filePath mimeType")
  case (Pair invoked outcome)
  have s0: "stored (r\<lparr>events := events r @ invoked\<rparr>)"
    using processFile_quiet[of E filePath mimeType] Pair assms by (simp add: stored_quiet)
  show ?thesis
  proof (cases outcome)
    case (Inl message)
    with Pair s0 show ?thesis by (simp add: tryBlock_def)
  next
    case (Inr extractedText)
    define q1 where "q1 = query E (UpdateExtractedText extractedText) (r\<lparr>events := events r @ invoked\<rparr>)"
    have s1: "stored (snd q1)" unfolding q1_def using s0 by (rule stored_query)
    obtain requested extracted
      where x: "extractScheduleData E extractedText originalName = (requested, extracted)"
      by (cases "extractScheduleData E extractedText originalName")
    have s2: "stored ((snd q1)\<lparr>events := events (snd q1) @ requested\<rparr>)"
      using extract_quiet[of E extractedText originalName] x s1 by (simp add: stored_quiet)
    have s3: "stored r'" if "insertAssignments E items ((snd q1)\<lparr>events := events (snd q1) @ requested\<rparr>) = (res, r')"
      for items res r' using stored_inserts[OF s2, of E items] that by simp
    have s4: "stored (snd (query E UpdateCompleted r'))" if "stored r'" for r'
      using that by (rule stored_query)
    show ?thesis
      using Pair Inr x s1 s2 s3 s4
      by (auto simp: tryBlock_def q1_def split: prod.splits sum.splits)
  qed
qed

lemma stored_processFileAsync:
  assumes "stored r"
  shows "stored (snd (processFileAsync E filePath mimeType originalName r))"
proof -
  have t: "stored (snd (tryBlock E filePath mimeType originalName r))"
    using assms by (rule stored_tryBlock)
  then have "stored (snd (markFailed E message (snd (tryBlock E filePath mimeType originalName r))))"
    for message unfolding markFailed_def by (rule stored_query)
  with t show ?thesis
    by (auto simp: processFileAsync_def split: prod.splits sum.splits)
qed

lemma consistent_uploadFile: "consistent (snd (uploadFile E filePath mimeType originalName))"
proof (cases "db_error E 0")
  case (Some message)
  then show ?thesis
    by (simp add: uploadFile_def query_def initial_def consistent_def)
next
  case None
  then have q: "query E InsertFile initial
      = (Inr (), (applyStmt InsertFile initial)\<lparr>issued := Suc 0, events := [Query InsertFile True]\<rparr>)"
    by (simp add: query_def initial_def)
  have "stored ((applyStmt InsertFile initial)\<lparr>issued := Suc 0, events := [Query InsertFile True]\<rparr>)"
    by (simp add: stored_def consistent_def initial_def)
  from stored_processFileAsync[OF this] q show ?thesis
    by (simp add: uploadFile_def stored_def)
qed

subsection \<open>The whole run\<close>

lemma processFileAsync_events:
  "\<exists>evs. events (snd (processFileAsync E filePath mimeType originalName r)) = events r @ evs
     \<and> statusHistory evs \<in> {[], [failed], [text_extracted], [text_extracted, failed],
                               [text_extracted, completed]}
     \<and> (case afterFailure evs of
           None \<Rightarrow> True
         | Some (q, rest) \<Rightarrow>
             (\<exists>message. q = UpdateFailed message \<and> rest = [])
             \<or> (interrupted q \<and> (\<exists>message ok. rest = [Query (UpdateFailed message) ok])))"
proof -
  let ?t = "tryBlock E filePath mimeType originalName r"
  note app = statusHistory_append afterFailure_append
  from tryBlock_events[of E filePath mimeType originalName r] obtain evs where
    e: "events (snd ?t) = events r @ evs"
    and c: "(fst ?t = Inr () \<and> statusHistory evs = [text_extracted, completed] \<and> afterFailure evs = None)
        \<or> ((\<exists>message. fst ?t = Inl message)
            \<and> (statusHistory evs = [] \<or> statusHistory evs = [text_extracted])
            \<and> (afterFailure evs = None \<or> (\<exists>q. interrupted q \<and> afterFailure evs = Some (q, []))))"
    by blast
  show ?thesis
  proof (cases "fst ?t")
    case (Inr u)
    then have "processFileAsync E filePath mimeType originalName r = (Inr (), snd ?t)"
      by (cases ?t) (simp add: processFileAsync_def)
    with e c Inr show ?thesis by auto
  next
    case (Inl message)
    define ok where "ok = (db_error E (issued (snd ?t)) = None)"
    from Inl have p: "processFileAsync E filePath mimeType originalName r
                        = query E (UpdateFailed message) (snd ?t)"
      by (cases ?t) (simp add: processFileAsync_def markFailed_def)
    have e2: "events (snd (query E (UpdateFailed message) (snd ?t)))
                = events r @ (evs @ [Query (UpdateFailed message) ok])"
      by (simp add: query_events e ok_def)
    from c Inl have h: "statusHistory evs = [] \<or> statusHistory evs = [text_extracted]"
      and a: "afterFailure evs = None \<or> (\<exists>q. interrupted q \<and> afterFailure evs = Some (q, []))"
      by auto
    have h2: "statusHistory (evs @ [Query (UpdateFailed message) ok])
                \<in> {[], [failed], [text_extracted], [text_extracted, failed],
                    [text_extracted, completed]}"
      using h by (cases ok) (auto simp: app)
    have a2: "(case afterFailure (evs @ [Query (UpdateFailed message) ok]) of
           None \<Rightarrow> True
         | Some (q, rest) \<Rightarrow>
             (\<exists>message. q = UpdateFailed message \<and> rest = [])
             \<or> (interrupted q \<and> (\<exists>message ok. rest = [Query (UpdateFailed message) ok])))"
      using a by (cases ok) (auto simp: app)
    show ?thesis
      unfolding p using e2 h2 a2 by blast
  qed
qed

lemma uploadFile_events:
  "(events (snd (uploadFile E filePath mimeType originalName)) = [Query InsertFile False])
   \<or> (\<exists>evs. events (snd (uploadFile E filePath mimeType originalName)) = Query InsertFile True # evs
        \<and> statusHistory evs \<in> {[], [failed], [text_extracted], [text_extracted, failed],
                               [text_extracted, completed]}
        \<and> (case afterFailure evs of
             None \<Rightarrow> True
           | Some (q, rest) \<Rightarrow>
               (\<exists>message. q = UpdateFailed message \<and> rest = [])
               \<or> (interrupted q \<and> (\<exists>message ok. rest = [Query (UpdateFailed message) ok]))))"
proof (cases "db_error E 0")
  case (Some message)
  then show ?thesis by (simp add: uploadFile_def query_def initial_def)
next
  case None
  define r where "r = (applyStmt InsertFile initial)\<lparr>issued := Suc 0, events := [Query InsertFile True]\<rparr>"
  from None have q: "query E InsertFile initial = (Inr (), r)"
    by (simp add: query_def initial_def r_def)
  have er: "events r = [Query InsertFile True]" by (simp add: r_def)
  from q have u: "uploadFile E filePath mimeType originalName
                    = processFileAsync E filePath mimeType originalName r"
    by (simp add: uploadFile_def)
  from processFileAsync_events[of E filePath mimeType originalName r]
  show ?thesis unfolding u er by simp
qed

lemma uploadFile_history:
  "statusHistory (events (snd (uploadFile E filePath mimeType originalName)))
       \<in> {[], [processing], [processing, failed], [processing, text_extracted],
           [processing, text_extracted, failed], [processing, text_extracted, completed]}"
proof -
  let ?ev = "events (snd (uploadFile E filePath mimeType originalName))"
  from uploadFile_events[of E filePath mimeType originalName]
  consider "?ev = [Query InsertFile False]"
    | evs where "?ev = Query InsertFile True # evs"
        "statusHistory evs \<in> {[], [failed], [text_extracted], [text_extracted, failed],
                               [text_extracted, completed]}"
    by blast
  then show ?thesis
  proof cases
    case 1
    then show ?thesis by simp
  next
    case 2
    have "statusHistory ?ev = processing # statusHistory evs"
      unfolding 2(1) by simp
    with 2(2) show ?thesis by auto
  qed
qed

lemma uploadFile_aborts:
  "abortsAfterRefusal (events (snd (uploadFile E filePath mimeType originalName)))"
proof -
  let ?ev = "events (snd (uploadFile E filePath mimeType originalName))"
  from uploadFile_events[of E filePath mimeType originalName]
  consider "?ev = [Query InsertFile False]"
    | evs where "?ev = Query InsertFile True # evs"
        "(case afterFailure evs of
             None \<Rightarrow> True
           | Some (q, rest) \<Rightarrow>
               (\<exists>message. q = UpdateFailed message \<and> rest = [])
               \<or> (interrupted q \<and> (\<exists>message ok. rest = [Query (UpdateFailed message) ok])))"
    by blast
  then show ?thesis
  proof cases
    case 1
    then show ?thesis by (simp add: abortsAfterRefusal_def)
  next
    case 2
    have a: "afterFailure ?ev = afterFailure evs" unfolding 2(1) by simp
    show ?thesis
    proof (cases "afterFailure evs")
      case None
      with a show ?thesis by (simp add: abortsAfterRefusal_def)
    next
      case (Some qr)
      obtain q rest where qr: "qr = (q, rest)" by (cases qr)
      from 2(2) Some qr
      have "(\<exists>message. q = UpdateFailed message \<and> rest = [])
               \<or> (interrupted q \<and> (\<exists>message ok. rest = [Query (UpdateFailed message) ok]))"
        by simp
      then show ?thesis
        unfolding abortsAfterRefusal_def a Some qr
        by (cases q) (auto simp: interrupted_def)
    qed
  qed
qed

text \<open>
  Claim C1.  In every run (the insert of the file's row with status \<open>processing\<close>, then
  \<open>processFileAsync\<close>) the statuses durably written form a legal history: no status follows
  \<open>completed\<close> or \<open>failed\<close>, \<open>failed\<close> follows only \<open>processing\<close> or \<open>text_extracted\<close>, and
  otherwise the status does not decrease along pending, processing, text_extracted,
  completed.  The status column always holds the last status written.
\<close>

theorem status_never_regresses:
  "legalHistory (statusHistory (events (snd (uploadFile E filePath mimeType originalName))))
   \<and> statusHistory (events (snd (uploadFile E filePath mimeType originalName)))
       \<in> {[], [processing], [processing, failed], [processing, text_extracted],
           [processing, text_extracted, failed], [processing, text_extracted, completed]}
   \<and> consistent (snd (uploadFile E filePath mimeType originalName))"
proof -
  let ?h = "statusHistory (events (snd (uploadFile E filePath mimeType originalName)))"
  have m: "?h \<in> {[], [processing], [processing, failed], [processing, text_extracted],
           [processing, text_extracted, failed], [processing, text_extracted, completed]}"
    by (rule uploadFile_history)
  have l: "legalHistory h"
    if "h \<in> {[], [processing], [processing, failed], [processing, text_extracted],
           [processing, text_extracted, failed], [processing, text_extracted, completed]}" for h
    using that by (auto simp: legalStep_def terminal_def)
  from l[OF m] m consistent_uploadFile show ?thesis by blast
qed

lemma afterFailure_Some:
  "afterFailure evs = Some (q, rest) \<Longrightarrow>
     \<exists>before. evs = before @ Query q False # rest \<and> afterFailure before = None"
proof (induction evs rule: afterFailure.induct)
  case 1
  then show ?case by simp
next
  case (2 q' es)
  then show ?case by (intro exI[of _ "[]"]) simp
qed (auto intro: exI[of _ "_ # _"] simp: Cons_eq_append_conv)

lemma failed_recorded:
  assumes "consistent r"
    and "afterFailure (events r) = Some (q, [Query (UpdateFailed message) True])"
  shows "map_option processing_status (fileRecord r) = Some failed"
proof -
  from afterFailure_Some[OF assms(2)] obtain before
    where e: "events r = before @ Query q False # [Query (UpdateFailed message) True]"
    by blast
  have h: "statusHistory (events r) = statusHistory before @ [failed]"
    unfolding e by (simp add: statusHistory_append)
  with assms(1) show ?thesis
    by (cases "fileRecord r") (simp_all add: consistent_def)
qed

subsection \<open>The error of a refused statement\<close>

lemma sent_append: "sent (xs @ ys) = sent xs + sent ys"
  by (induction xs rule: sent.induct) simp_all

lemma firstRefusal_append:
  "firstRefusal n (xs @ ys) =
     (case firstRefusal n xs of
        None \<Rightarrow> firstRefusal (n + sent xs) ys
      | Some (i, q, rest) \<Rightarrow> Some (i, q, rest @ ys))"
  by (induction n xs rule: firstRefusal.induct) (simp_all split: option.splits)

lemma tracedI:
  "events (snd out) = events r @ evs \<Longrightarrow> issued (snd out) = issued r + sent evs \<Longrightarrow>
     thrown E (issued r) evs (fst out) \<Longrightarrow> traced E r out"
  by (simp add: traced_def)

lemma tracedE:
  assumes "traced E r out"
  obtains evs where "events (snd out) = events r @ evs" "issued (snd out) = issued r + sent evs"
    "thrown E (issued r) evs (fst out)"
  using assms unfolding traced_def Let_def by blast

lemma quiet_sent: "quiet xs \<Longrightarrow> sent xs = 0"
  by (induction xs rule: sent.induct) (simp_all add: quiet_def)

lemma quiet_firstRefusal: "quiet xs \<Longrightarrow> firstRefusal n xs = None"
  by (induction n xs rule: firstRefusal.induct) (simp_all add: quiet_def)

lemma quiet_Nil: "quiet []"
  by (simp add: quiet_def)

lemma quiet_append: "quiet xs \<Longrightarrow> quiet ys \<Longrightarrow> quiet (xs @ ys)"
  by (simp add: quiet_def)

lemma quiet_processFile: "quiet (fst (processFile E filePath mimeType))"
  by (simp add: processFile_def Let_def quiet_def)

lemma quiet_retry: "quiet (fst (makeRequestWithRetry E prompt attempt))"
proof (induction E prompt attempt rule: makeRequestWithRetry.induct)
  case (1 E prompt attempt)
  show ?case
  proof (cases "attemptRequest E prompt attempt")
    case (Inr parsedData)
    then show ?thesis by (simp add: retry_ok quiet_def)
  next
    case (Inl message)
    show ?thesis
    proof (cases "attempt < maxRetries")
      case True
      from "1"[OF Inl True refl] have "quiet (fst (makeRequestWithRetry E prompt (attempt + 1)))" .
      moreover have "quiet [Request attempt, Wait (retryDelay * attempt)]" by (simp add: quiet_def)
      ultimately have "quiet ([Request attempt, Wait (retryDelay * attempt)]
                         @ fst (makeRequestWithRetry E prompt (attempt + 1)))"
        by (intro quiet_append)
      with retry_again[OF Inl True] show ?thesis by simp
    next
      case False
      from retry_exhausted[OF Inl False] show ?thesis by (simp add: quiet_def)
    qed
  qed
qed

lemma quiet_extract: "quiet (fst (extractScheduleData E t n))"
  by (simp add: extractScheduleData_def quiet_retry)

lemma traced_query: "interrupted q \<Longrightarrow> traced E r (query E q r)"
  by (rule tracedI[of _ _ "[Query q (db_error E (issued r) = None)]"])
     (auto simp: query_def thrown_def split: option.splits)

lemma traced_quiet_end: "quiet xs \<Longrightarrow> traced E r (res, r\<lparr>events := events r @ xs\<rparr>)"
  by (rule tracedI[of _ _ xs]) (simp_all add: quiet_sent quiet_firstRefusal thrown_def)

lemma traced_quiet_bind:
  assumes "quiet xs" "traced E (r\<lparr>events := events r @ xs\<rparr>) out"
  shows "traced E r out"
proof -
  from assms(2) obtain evs where e: "events (snd out) = (events r @ xs) @ evs"
    and i: "issued (snd out) = issued r + sent evs"
    and t: "thrown E (issued r) evs (fst out)"
    by (rule tracedE) simp
  from assms(1) have q: "sent xs = 0" "firstRefusal (issued r) xs = None"
    by (simp_all add: quiet_sent quiet_firstRefusal)
  have "thrown E (issued r) (xs @ evs) (fst out)"
    using t by (simp add: thrown_def firstRefusal_append q)
  with e i q show ?thesis
    by (intro tracedI[of _ _ "xs @ evs"]) (simp_all add: sent_append)
qed

lemma traced_then:
  assumes "traced E r (Inr u, r1)" "traced E r1 out"
  shows "traced E r out"
proof -
  from assms(1) obtain xs where e1: "events r1 = events r @ xs"
    and i1: "issued r1 = issued r + sent xs"
    and t1: "thrown E (issued r) xs (Inr u)"
    by (rule tracedE) simp
  from assms(2) obtain evs where e: "events (snd out) = events r1 @ evs"
    and i: "issued (snd out) = issued r1 + sent evs"
    and t: "thrown E (issued r1) evs (fst out)"
    by (rule tracedE)
  from t1 have n: "firstRefusal (issued r) xs = None"
    by (auto simp: thrown_def split: option.splits)
  have "thrown E (issued r) (xs @ evs) (fst out)"
    using t by (simp add: thrown_def firstRefusal_append n i1)
  with e i e1 i1 show ?thesis
    by (intro tracedI[of _ _ "xs @ evs"]) (simp_all add: sent_append)
qed

lemma traced_bind:
  assumes "traced E r (op r)" "\<And>r'. traced E r' (rest r')"
  shows "traced E r (case op r of (Inl message, r') \<Rightarrow> (Inl message, r') | (Inr u, r') \<Rightarrow> rest r')"
proof (cases "op r")
  case (Pair res r')
  show ?thesis
  proof (cases res)
    case (Inl message)
    with Pair assms(1) show ?thesis by simp
  next
    case (Inr u)
    with Pair assms(1) have "traced E r (Inr u, r')" by simp
    from traced_then[OF this assms(2)[of r']] Pair Inr show ?thesis by simp
  qed
qed

lemma traced_inserts: "traced E r (insertAssignments E items r)"
proof (induction items arbitrary: r)
  case Nil
  have "traced E r (Inr (), r\<lparr>events := events r @ []\<rparr>)"
    by (rule traced_quiet_end) (rule quiet_Nil)
  then show ?case by simp
next
  case (Cons i rest)
  have "traced E r (case query E (InsertAssignment i) r of
                      (Inl message, r') \<Rightarrow> (Inl message, r')
                    | (Inr u, r') \<Rightarrow> insertAssignments E rest r')"
    by (rule traced_bind[where op = "query E (InsertAssignment i)"])
       (simp_all add: traced_query interrupted_def Cons.IH)
  then show ?case by simp
qed

lemma traced_tryBlock: "traced E r (tryBlock E filePath mimeType originalName r)"
proof (cases "processFile E filePath mimeType")
  case (Pair invoked outcome)
  have qi: "quiet invoked" using quiet_processFile[of E filePath mimeType] Pair by simp
  show ?thesis
  proof (cases outcome)
    case (Inl message)
    with Pair have "tryBlock E filePath mimeType originalName r
                      = (Inl message, r\<lparr>events := events r @ invoked\<rparr>)"
      by (simp add: tryBlock_def)
    with traced_quiet_end[OF qi] show ?thesis by simp
  next
    case (Inr extractedText)
    obtain requested extracted
      where x: "extractScheduleData E extractedText originalName = (requested, extracted)"
      by (cases "extractScheduleData E extractedText originalName")
    have qr: "quiet requested" using quiet_extract[of E extractedText originalName] x by simp
    define after where "after = (\<lambda>r1.
        (case extracted of
           Inl message \<Rightarrow> (Inl message, r1\<lparr>events := events r1 @ requested\<rparr>)
         | Inr scheduleData \<Rightarrow>
             (case insertAssignments E scheduleData (r1\<lparr>events := events r1 @ requested\<rparr>) of
                (Inl message, r2) \<Rightarrow> (Inl message, r2)
              | (Inr u, r2) \<Rightarrow> query E UpdateCompleted r2)))"
    have a: "traced E r1 (after r1)" for r1
    proof (cases extracted)
      case (Inl message)
      with traced_quiet_end[OF qr] show ?thesis by (simp add: after_def)
    next
      case (Inr scheduleData)
      have "traced E (r1\<lparr>events := events r1 @ requested\<rparr>)
              (case insertAssignments E scheduleData (r1\<lparr>events := events r1 @ requested\<rparr>) of
                (Inl message, r2) \<Rightarrow> (Inl message, r2)
              | (Inr u, r2) \<Rightarrow> query E UpdateCompleted r2)"
        by (rule traced_bind[where op = "insertAssignments E scheduleData"])
           (simp_all add: traced_inserts traced_query interrupted_def)
      from traced_quiet_bind[OF qr this] Inr show ?thesis by (simp add: after_def)
    qed
    have "traced E (r\<lparr>events := events r @ invoked\<rparr>)
            (case query E (UpdateExtractedText extractedText) (r\<lparr>events := events r @ invoked\<rparr>) of
               (Inl message, r1) \<Rightarrow> (Inl message, r1)
             | (Inr u, r1) \<Rightarrow> after r1)"
      by (rule traced_bind[where op = "query E (UpdateExtractedText extractedText)"])
         (simp_all add: traced_query interrupted_def a)
    from traced_quiet_bind[OF qi this]
    have "traced E r
            (case query E (UpdateExtractedText extractedText) (r\<lparr>events := events r @ invoked\<rparr>) of
               (Inl message, r1) \<Rightarrow> (Inl message, r1)
             | (Inr u, r1) \<Rightarrow> after r1)" .
    moreover have "tryBlock E filePath mimeType originalName r
        = (case query E (UpdateExtractedText extractedText) (r\<lparr>events := events r @ invoked\<rparr>) of
               (Inl message, r1) \<Rightarrow> (Inl message, r1)
             | (Inr u, r1) \<Rightarrow> after r1)"
      using Pair Inr x by (simp add: tryBlock_def after_def split: prod.splits sum.splits)
    ultimately show ?thesis by simp
  qed
qed

lemma recorded_interrupted:
  assumes "interrupted q" "db_error E n = Some message"
    and "ok \<longrightarrow> map_option (\<lambda>row. (processing_status row, processing_error row)) f
                  = Some (failed, Some message)"
  shows "recorded E f (Some (n, q, [Query (UpdateFailed message) ok]))"
  using assms by (cases q; cases ok) (simp_all add: recorded_def interrupted_def)

lemma processFileAsync_recorded:
  assumes "stored r"
  shows "\<exists>evs. events (snd (processFileAsync E filePath mimeType originalName r)) = events r @ evs
     \<and> recorded E (fileRecord (snd (processFileAsync E filePath mimeType originalName r)))
          (firstRefusal (issued r) evs)"
proof -
  let ?t = "tryBlock E filePath mimeType originalName r"
  from traced_tryBlock[of E r filePath mimeType originalName] obtain evs
    where e: "events (snd ?t) = events r @ evs"
      and i: "issued (snd ?t) = issued r + sent evs"
      and th: "thrown E (issued r) evs (fst ?t)"
    by (rule tracedE)
  from stored_tryBlock[OF assms, of E filePath mimeType originalName]
  obtain f where f: "fileRecord (snd ?t) = Some f"
    by (auto simp: stored_def)
  show ?thesis
  proof (cases "fst ?t")
    case (Inr u)
    then have p: "processFileAsync E filePath mimeType originalName r = (Inr (), snd ?t)"
      by (cases ?t) (simp add: processFileAsync_def)
    from th Inr have "firstRefusal (issued r) evs = None"
      by (auto simp: thrown_def split: option.splits)
    then show ?thesis
      unfolding p using e by (intro exI[of _ evs]) (simp add: recorded_def)
  next
    case (Inl message)
    define ok where "ok = (db_error E (issued (snd ?t)) = None)"
    let ?w = "Query (UpdateFailed message) ok"
    from Inl have p: "processFileAsync E filePath mimeType originalName r
                        = query E (UpdateFailed message) (snd ?t)"
      by (cases ?t) (simp add: processFileAsync_def markFailed_def)
    have e2: "events (snd (query E (UpdateFailed message) (snd ?t))) = events r @ (evs @ [?w])"
      by (simp add: query_events e ok_def)
    have r2: "ok \<longrightarrow> map_option (\<lambda>row. (processing_status row, processing_error row))
                 (fileRecord (snd (query E (UpdateFailed message) (snd ?t))))
               = Some (failed, Some message)"
      by (simp add: query_fileRecord ok_def f)
    have "recorded E (fileRecord (snd (query E (UpdateFailed message) (snd ?t))))
            (firstRefusal (issued r) (evs @ [?w]))"
    proof (cases "firstRefusal (issued r) evs")
      case None
      then have "firstRefusal (issued r) (evs @ [?w])
                   = (if ok then None else Some (issued r + sent evs, UpdateFailed message, []))"
        by (simp add: firstRefusal_append)
      then show ?thesis by (simp add: recorded_def)
    next
      case (Some x)
      obtain n q rest where x: "x = (n, q, rest)" by (cases x)
      from th Some x Inl have "rest = []" "interrupted q" "db_error E n = Some message"
        by (auto simp: thrown_def split: option.splits)
      moreover have "firstRefusal (issued r) (evs @ [?w]) = Some (n, q, rest @ [?w])"
        using Some x by (simp add: firstRefusal_append)
      ultimately show ?thesis
        using r2 by (simp add: recorded_interrupted)
    qed
    with e2 show ?thesis unfolding p by blast
  qed
qed

lemma uploadFile_recorded: "failureRecorded E (snd (uploadFile E filePath mimeType originalName))"
proof (cases "db_error E 0")
  case (Some message)
  then show ?thesis
    by (simp add: uploadFile_def query_def initial_def failureRecorded_def recorded_def)
next
  case None
  define r where "r = (applyStmt InsertFile initial)\<lparr>issued := Suc 0, events := [Query InsertFile True]\<rparr>"
  from None have q: "query E InsertFile initial = (Inr (), r)"
    by (simp add: query_def initial_def r_def)
  have er: "events r = [Query InsertFile True]" "issued r = Suc 0" by (simp_all add: r_def)
  have s: "stored r" by (simp add: r_def stored_def consistent_def initial_def)
  from q have u: "uploadFile E filePath mimeType originalName
                    = processFileAsync E filePath mimeType originalName r"
    by (simp add: uploadFile_def)
  from processFileAsync_recorded[OF s, of E filePath mimeType originalName] obtain evs
    where e: "events (snd (processFileAsync E filePath mimeType originalName r)) = events r @ evs"
      and c: "recorded E (fileRecord (snd (processFileAsync E filePath mimeType originalName r)))
          (firstRefusal (issued r) evs)"
    by blast
  have "firstRefusal 0 (events r @ evs) = firstRefusal (Suc 0) evs"
    by (simp add: er)
  with c e show ?thesis
    unfolding u failureRecorded_def by (simp add: er)
qed

text \<open>
  Claim C6, as amended.  When the database refuses a statement of the \<open>try\<close> block, no further
  stage runs (no strategy, no request, no insert, no write of \<open>completed\<close>); the \<open>catch\<close>
  block then tries one more statement, the write of \<open>failed\<close> with the message of the error
  the database gave for the refused statement, and nothing follows it.  If the database
  accepts that write, the row holds the status \<open>failed\<close> and that message.  When the refused
  statement is the first insert or the write of \<open>failed\<close> itself, nothing follows.  The
  status column holds the last status the database accepted: \<open>failed\<close> if that last write
  went through, the earlier status if it was refused too.
\<close>

theorem refused_write_then_failed:
  "abortsAfterRefusal (events (snd (uploadFile E filePath mimeType originalName)))
   \<and> failureRecorded E (snd (uploadFile E filePath mimeType originalName))
   \<and> consistent (snd (uploadFile E filePath mimeType originalName))
   \<and> (afterFailure (events (snd (uploadFile E filePath mimeType originalName)))
          = Some (q, [Query (UpdateFailed message) True]) \<longrightarrow>
        map_option processing_status (fileRecord (snd (uploadFile E filePath mimeType originalName)))
          = Some failed)"
  using uploadFile_aborts uploadFile_recorded consistent_uploadFile failed_recorded by blast

lemma sample_text_normalized: "normalized (ascii ''Math HW due 2024-03-05 in Room 12'')"
  by (simp add: normalized_def runLength_Cons runLength_Nil isTrimmed_def is_ws_def ascii_def)

lemma sample_text_clean:
  "cleanText (Some (ascii ''Math HW due 2024-03-05 in Room 12''))
     = ascii ''Math HW due 2024-03-05 in Room 12''"
  by (rule normalized_fixed) (rule sample_text_normalized)

lemma text_plain_lookup: "getProperty supportedTypes (ascii ''text/plain'') = String (ascii ''text'')"
  by (simp add: getProperty_def supportedTypes_def ascii_def)

lemma sample_processFile:
  "processFile (sampleEnv\<lparr>db_error := d\<rparr>) filePath (ascii ''text/plain'')
     = ([Strategy ProcessText], Inr (ascii ''Math HW due 2024-03-05 in Room 12''))"
proof -
  have "processText (sampleEnv\<lparr>db_error := d\<rparr>) filePath
          = Inr (cleanText (Some (ascii ''Math HW due 2024-03-05 in Room 12'')))"
    by (simp add: processText_def sampleEnv_def)
  then have p: "processText (sampleEnv\<lparr>db_error := d\<rparr>) filePath
          = Inr (ascii ''Math HW due 2024-03-05 in Room 12'')"
    by (simp only: sample_text_clean)
  have n: "String (ascii ''text'') \<noteq> String (ascii ''excel'')"
    "String (ascii ''text'') \<noteq> String (ascii ''word'')"
    "String (ascii ''text'') \<noteq> String (ascii ''pdf'')"
    "truthy (String (ascii ''text''))"
    by (simp_all add: ascii_def)
  show ?thesis
    unfolding processFile_def text_plain_lookup Let_def using n p by simp
qed

lemma refusing_run:
  "events (snd (uploadFile refusing (ascii ''/uploads/notes.txt'') (ascii ''text/plain'')
                  (ascii ''notes.txt'')))
     = [Query InsertFile True, Strategy ProcessText,
        Query (UpdateExtractedText (ascii ''Math HW due 2024-03-05 in Room 12'')) False,
        Query (UpdateFailed (ascii ''connection lost'')) True]
   \<and> fileRecord (snd (uploadFile refusing (ascii ''/uploads/notes.txt'') (ascii ''text/plain'')
                  (ascii ''notes.txt'')))
     = Some \<lparr>processing_status = failed, extracted_text = None,
             processing_error = Some (ascii ''connection lost'')\<rparr>"
proof -
  have d: "db_error refusing 0 = None" "db_error refusing (Suc 0) = Some (ascii ''connection lost'')"
    "db_error refusing (Suc (Suc 0)) = None"
    by (simp_all add: refusing_def)
  have p: "processFile refusing (ascii ''/uploads/notes.txt'') (ascii ''text/plain'')
     = ([Strategy ProcessText], Inr (ascii ''Math HW due 2024-03-05 in Room 12''))"
    unfolding refusing_def by (rule sample_processFile)
  show ?thesis
    by (simp add: uploadFile_def processFileAsync_def tryBlock_def markFailed_def query_def
        initial_def p d)
qed

text \<open>
  Claim C6 as stated fails: the database refuses the write of the extracted text, and the
  run goes on to write \<open>failed\<close>, which the database accepts; the status on disk is then
  \<open>failed\<close>, not the \<open>processing\<close> that was last written before the refusal.
\<close>

theorem refused_write_counterexample:
  "afterFailure (events (snd (uploadFile refusing (ascii ''/uploads/notes.txt'')
       (ascii ''text/plain'') (ascii ''notes.txt''))))
     = Some (UpdateExtractedText (ascii ''Math HW due 2024-03-05 in Room 12''),
             [Query (UpdateFailed (ascii ''connection lost'')) True])
   \<and> statusHistory (events (snd (uploadFile refusing (ascii ''/uploads/notes.txt'')
       (ascii ''text/plain'') (ascii ''notes.txt''))))
     = [processing, failed]
   \<and> fileRecord (snd (uploadFile refusing (ascii ''/uploads/notes.txt'') (ascii ''text/plain'')
                  (ascii ''notes.txt'')))
     = Some \<lparr>processing_status = failed, extracted_text = None,
             processing_error = Some (ascii ''connection lost'')\<rparr>"
  by (simp add: refusing_run)

lemma refusing_refusal:
  "firstRefusal 0 (events (snd (uploadFile refusing (ascii ''/uploads/notes.txt'')
       (ascii ''text/plain'') (ascii ''notes.txt''))))
     = Some (1, UpdateExtractedText (ascii ''Math HW due 2024-03-05 in Room 12''),
             [Query (UpdateFailed (ascii ''connection lost'')) True])"
  by (simp add: refusing_run)

text \<open>Claim C6 as amended, in that run.\<close>

theorem refused_write_then_failed_witness:
  "afterFailure (events (snd (uploadFile refusing (ascii ''/uploads/notes.txt'')
       (ascii ''text/plain'') (ascii ''notes.txt''))))
     = Some (UpdateExtractedText (ascii ''Math HW due 2024-03-05 in Room 12''),
             [Query (UpdateFailed (ascii ''connection lost'')) True])
   \<and> db_error refusing 1 = Some (ascii ''connection lost'')
   \<and> failureRecorded refusing (snd (uploadFile refusing
         (ascii ''/uploads/notes.txt'') (ascii ''text/plain'') (ascii ''notes.txt'')))
   \<and> map_option (\<lambda>row. (processing_status row, processing_error row))
        (fileRecord (snd (uploadFile refusing
         (ascii ''/uploads/notes.txt'') (ascii ''text/plain'') (ascii ''notes.txt''))))
     = Some (failed, Some (ascii ''connection lost''))
   \<and> map_option processing_status (fileRecord (snd (uploadFile refusing
         (ascii ''/uploads/notes.txt'') (ascii ''text/plain'') (ascii ''notes.txt''))))
     = Some failed"
proof -
  let ?r = "snd (uploadFile refusing (ascii ''/uploads/notes.txt'') (ascii ''text/plain'')
                   (ascii ''notes.txt''))"
  have a: "afterFailure (events ?r)
     = Some (UpdateExtractedText (ascii ''Math HW due 2024-03-05 in Room 12''),
             [Query (UpdateFailed (ascii ''connection lost'')) True])"
    by (simp add: refusing_run)
  have d: "db_error refusing 1 = Some (ascii ''connection lost'')"
    by (simp add: refusing_def)
  note T = refused_write_then_failed[of refusing "ascii ''/uploads/notes.txt''"
      "ascii ''text/plain''" "ascii ''notes.txt''"
      "UpdateExtractedText (ascii ''Math HW due 2024-03-05 in Room 12'')" "ascii ''connection lost''"]
  from T a have s: "map_option processing_status (fileRecord ?r) = Some failed" by blast
  from T have f: "failureRecorded refusing ?r" by blast
  then have "map_option (\<lambda>row. (processing_status row, processing_error row)) (fileRecord ?r)
     = Some (failed, Some (ascii ''connection lost''))"
    unfolding failureRecorded_def refusing_refusal using d by (simp add: recorded_def)
  with a d s f show ?thesis by blast
qed


section \<open>TextNormalizer: what becomes of words and of runs\<close>

subsection \<open>Words pass through the replacements\<close>

lemma replaceCRLF_Cons: "x \<noteq> CR \<Longrightarrow> replaceCRLF (x # ys) = x # replaceCRLF ys"
  by (cases ys) simp_all

lemma replaceCRLF_split:
  "x \<noteq> CR \<Longrightarrow> x \<noteq> LF \<Longrightarrow> replaceCRLF (xs @ x # ys) = replaceCRLF xs @ x # replaceCRLF ys"
  by (induction xs rule: replaceCRLF.induct) (simp_all add: replaceCRLF_Cons)

lemma replaceCR_split:
  "x \<noteq> CR \<Longrightarrow> replaceCR (xs @ x # ys) = replaceCR xs @ x # replaceCR ys"
  by (simp add: replaceCR_def)

lemma runLength_split: "x \<noteq> c \<Longrightarrow> runLength c (xs @ x # ys) = runLength c xs"
  by (induction xs) (simp_all add: runLength_Cons runLength_Nil)

lemma dropWhile_split:
  "x \<noteq> c \<Longrightarrow> dropWhile (\<lambda>y. y = c) (xs @ x # ys) = dropWhile (\<lambda>y. y = c) xs @ x # ys"
  by (induction xs) simp_all

lemma replaceRuns_split:
  "x \<noteq> c \<Longrightarrow> replaceRuns c k r (xs @ x # ys) = replaceRuns c k r xs @ x # replaceRuns c k r ys"
proof (induction xs rule: length_induct)
  case (1 xs)
  show ?case
  proof (cases xs)
    case Nil
    with 1(2) show ?thesis by (simp add: replaceRuns_Cons)
  next
    case (Cons z zs)
    have "length (dropWhile (\<lambda>y. y = c) zs) < length xs"
      using Cons by (simp add: length_dropWhile_le less_Suc_eq_le)
    with 1 have a: "replaceRuns c k r (dropWhile (\<lambda>y. y = c) zs @ x # ys)
                     = replaceRuns c k r (dropWhile (\<lambda>y. y = c) zs) @ x # replaceRuns c k r ys"
      by blast
    have b: "replaceRuns c k r (zs @ x # ys) = replaceRuns c k r zs @ x # replaceRuns c k r ys"
      using 1 Cons by simp
    show ?thesis
      using a b 1(2) by (simp add: Cons replaceRuns_Cons runLength_split dropWhile_split)
  qed
qed

lemma not_ws_ordinary: "\<not> is_ws x \<Longrightarrow> ordinary x"
  by (auto simp: is_ws_def ordinary_def)

lemma replacements_split:
  "ordinary x \<Longrightarrow> replacements (xs @ x # ys) = replacements xs @ x # replacements ys"
  by (simp add: replacements_def ordinary_def replaceCRLF_split replaceCR_split replaceRuns_split)

lemma replacements_Nil: "replacements [] = []"
  by (simp add: replacements_def replaceCR_def)

lemma replacements_prefix:
  "list_all ordinary u \<Longrightarrow> replacements (u @ ys) = u @ replacements ys"
proof (induction u)
  case Nil
  then show ?case by simp
next
  case (Cons x u)
  from replacements_split[of x "[]" "u @ ys"] Cons show ?case
    by (simp add: replacements_Nil)
qed

lemma replacements_word:
  assumes "plain u"
  shows "replacements (xs @ u @ ys) = replacements xs @ u @ replacements ys"
proof -
  from assms obtain x u' where u: "u = x # u'" and x: "ordinary x" and r: "list_all ordinary u'"
    by (cases u) (auto simp: plain_def list_all_iff not_ws_ordinary)
  have "replacements (xs @ x # (u' @ ys)) = replacements xs @ x # replacements (u' @ ys)"
    using x by (rule replacements_split)
  with replacements_prefix[OF r, of ys] show ?thesis by (simp add: u)
qed

lemma cleanText_replacements:
  "cleanText (Some t) = (if t = [] then [] else trim (replacements t))"
  by (simp add: cleanText_def replacements_def)

lemma trim_between:
  assumes "plain u" "plain v"
  shows "trim (u @ m @ v) = u @ m @ v"
proof (rule trim_fixed)
  from assms obtain x u' where u: "u = x # u'" and x: "\<not> is_ws x"
    by (cases u) (auto simp: plain_def)
  from assms have "v \<noteq> []" "\<not> is_ws (last v)"
    by (auto simp: plain_def list_all_iff)
  then show "isTrimmed (u @ m @ v)"
    using x by (simp add: isTrimmed_def u)
qed

subsection \<open>What becomes of a run\<close>

lemma runLength_replicate: "runLength c (replicate n c) = n"
  by (induction n) (simp_all add: runLength_Cons runLength_Nil)

lemma dropWhile_replicate: "dropWhile (\<lambda>y. y = c) (replicate n c) = []"
  by (induction n) simp_all

lemma replaceRuns_replicate:
  "replaceRuns c k r (replicate n c) = (if n = 0 then [] else if k \<le> n then r else replicate n c)"
proof (induction n)
  case 0
  show ?case by simp
next
  case (Suc n)
  show ?case
  proof (cases "k \<le> Suc n")
    case True
    then show ?thesis
      by (simp add: replaceRuns_Cons runLength_replicate dropWhile_replicate)
  next
    case False
    with Suc show ?thesis
      by (simp add: replaceRuns_Cons runLength_replicate)
  qed
qed

lemma replaceRuns_absent: "c \<notin> set xs \<Longrightarrow> 0 < k \<Longrightarrow> replaceRuns c k r xs = xs"
  by (intro replaceRuns_fixed runsBelow_notin)

lemma replacements_line_feeds: "replacements (replicate n LF) = replicate (min n 2) LF"
proof -
  have a: "replaceCR (replaceCRLF (replicate n LF)) = replicate n LF"
    by (simp add: replaceCRLF_fixed replaceCR_fixed)
  have b: "replaceRuns LF 3 [LF, LF] (replicate n LF) = replicate (min n 2) LF"
  proof -
    consider "n = 0" | "n = 1" | "n = 2" | "3 \<le> n" by linarith
    then show ?thesis
      unfolding replaceRuns_replicate
      by cases (simp_all add: min_def numeral_2_eq_2)
  qed
  have c: "replaceRuns SP 2 [SP] (replaceRuns TAB (Suc 0) [SP] (replicate m LF)) = replicate m LF" for m
    by (simp add: replaceRuns_absent)
  show ?thesis by (simp add: replacements_def a b c)
qed

lemma tabs_to_spaces:
  "set ws \<subseteq> {TAB, SP} \<Longrightarrow>
     \<exists>m. replaceRuns TAB (Suc 0) [SP] ws = replicate m SP \<and> (ws = [] \<or> 0 < m)"
proof (induction ws rule: length_induct)
  case (1 ws)
  show ?case
  proof (cases ws)
    case Nil
    then show ?thesis by simp
  next
    case (Cons x rest)
    let ?d = "dropWhile (\<lambda>y. y = TAB) rest"
    have "length ?d < length ws" using Cons by (simp add: length_dropWhile_le less_Suc_eq_le)
    moreover have "set ?d \<subseteq> {TAB, SP}"
      using 1(2) Cons set_dropWhileD[of _ "\<lambda>y. y = TAB" rest] by auto
    ultimately obtain m1 where m1: "replaceRuns TAB (Suc 0) [SP] ?d = replicate m1 SP"
      using 1(1) by blast
    have "set rest \<subseteq> {TAB, SP}" using 1(2) Cons by simp
    then obtain m2 where m2: "replaceRuns TAB (Suc 0) [SP] rest = replicate m2 SP"
      using 1(1) Cons by fastforce
    from 1(2) Cons have "x = TAB \<or> x = SP" by simp
    then show ?thesis
    proof
      assume "x = TAB"
      then have "replaceRuns TAB (Suc 0) [SP] ws = replicate (Suc m1) SP"
        by (simp add: Cons replaceRuns_Cons m1)
      then show ?thesis by blast
    next
      assume "x = SP"
      then have "replaceRuns TAB (Suc 0) [SP] ws = replicate (Suc m2) SP"
        by (simp add: Cons replaceRuns_Cons m2)
      then show ?thesis by blast
    qed
  qed
qed

lemma replacements_blanks:
  assumes "ws \<noteq> []" "set ws \<subseteq> {TAB, SP}"
  shows "replacements ws = [SP]"
proof -
  from assms(2) have n: "CR \<notin> set ws" "LF \<notin> set ws" by auto
  then have a: "replaceRuns LF 3 [LF, LF] (replaceCR (replaceCRLF ws)) = ws"
    by (simp add: replaceCRLF_fixed replaceCR_fixed replaceRuns_absent)
  from tabs_to_spaces[OF assms(2)] assms(1)
  obtain m where m: "replaceRuns TAB (Suc 0) [SP] ws = replicate m SP" "0 < m" by auto
  have "replaceRuns SP 2 [SP] (replicate m SP) = [SP]"
    unfolding replaceRuns_replicate
  proof (cases "m = 1")
    case True
    then show "(if m = 0 then [] else if 2 \<le> m then [SP] else replicate m SP) = [SP]" by simp
  next
    case False
    with m(2) have "2 \<le> m" by simp
    then show "(if m = 0 then [] else if 2 \<le> m then [SP] else replicate m SP) = [SP]" by simp
  qed
  then show ?thesis by (simp add: replacements_def a m(1))
qed

lemma replacements_CR: "replacements [CR, LF] = [LF]" "replacements [CR] = [LF]"
  by (simp_all add: replacements_def replaceCR_def replaceRuns_Cons runLength_Cons runLength_Nil)

lemma cleanText_between:
  assumes "plain u" "plain v"
  shows "cleanText (Some (u @ m @ v)) = u @ replacements m @ v"
proof -
  from assms have "u \<noteq> []" by (simp add: plain_def)
  then have ne: "u @ m @ v \<noteq> []" by simp
  have "replacements (u @ m @ v) = replacements [] @ u @ replacements (m @ v)"
    using replacements_word[OF assms(1), of "[]" "m @ v"] by simp
  also have "replacements (m @ v) = replacements m @ v @ replacements []"
    using replacements_word[OF assms(2), of m "[]"] by simp
  finally have eq: "replacements (u @ m @ v) = u @ replacements m @ v"
    by (simp add: replacements_Nil)
  have "cleanText (Some (u @ m @ v)) = trim (replacements (u @ m @ v))"
    using ne by (simp only: cleanText_replacements if_False)
  also have "\<dots> = trim (u @ replacements m @ v)" by (simp only: eq)
  also have "\<dots> = u @ replacements m @ v" by (rule trim_between[OF assms])
  finally show ?thesis .
qed

subsection \<open>White space at the ends\<close>

lemma replaceCRLF_ws: "list_all is_ws a \<Longrightarrow> list_all is_ws (replaceCRLF a)"
  by (induction a rule: replaceCRLF.induct) (auto simp: is_ws_def)

lemma replaceCR_ws: "list_all is_ws a \<Longrightarrow> list_all is_ws (replaceCR a)"
  by (induction a) (auto simp: replaceCR_def is_ws_def)

lemma replaceRuns_ws:
  "list_all is_ws a \<Longrightarrow> list_all is_ws r \<Longrightarrow> list_all is_ws (replaceRuns c k r a)"
  using set_replaceRuns[of c k r a] by (auto simp: list_all_iff)

lemma replacements_ws: "list_all is_ws a \<Longrightarrow> list_all is_ws (replacements a)"
  unfolding replacements_def
  by (intro replaceRuns_ws replaceCR_ws replaceCRLF_ws) (simp_all add: is_ws_def)

lemma dropWhile_ws_word:
  "list_all is_ws a \<Longrightarrow> plain u \<Longrightarrow> dropWhile is_ws (a @ u @ b) = u @ b"
proof (induction a)
  case Nil
  then show ?case by (cases u) (simp_all add: plain_def)
next
  case (Cons x a)
  then show ?case by simp
qed

lemma plain_rev: "plain u \<Longrightarrow> plain (rev u)"
  by (simp add: plain_def list_all_iff)

lemma trim_around:
  assumes "list_all is_ws a" "list_all is_ws b" "plain u"
  shows "trim (a @ u @ b) = u"
proof -
  have "dropWhile is_ws (a @ u @ b) = u @ b"
    using assms(1,3) by (rule dropWhile_ws_word)
  moreover have "dropWhile is_ws (rev b @ rev u @ []) = rev u @ []"
    using assms(2,3) by (intro dropWhile_ws_word plain_rev) (simp add: list_all_iff)
  ultimately show ?thesis by (simp add: trim_def)
qed

lemma cleanText_around:
  assumes "list_all is_ws a" "list_all is_ws b" "plain u"
  shows "cleanText (Some (a @ u @ b)) = u"
proof -
  from assms(3) have "u \<noteq> []" by (simp add: plain_def)
  then have ne: "a @ u @ b \<noteq> []" by simp
  have "cleanText (Some (a @ u @ b)) = trim (replacements (a @ u @ b))"
    using ne by (simp only: cleanText_replacements if_False)
  also have "\<dots> = trim (replacements a @ u @ replacements b)"
    by (simp only: replacements_word[OF assms(3)])
  also have "\<dots> = u"
    using assms by (intro trim_around replacements_ws)
  finally show ?thesis .
qed

subsection \<open>One pass over the text\<close>

declare collapse.simps(2) [simp del]

lemma lineEndings_length: "lineEndings xs = length (replaceCRLF xs)"
  by (induction xs rule: lineEndings.induct) simp_all

lemma replaceCRLF_append:
  assumes "ys = [] \<or> hd ys \<noteq> LF"
  shows "replaceCRLF (xs @ ys) = replaceCRLF xs @ replaceCRLF ys"
proof (cases ys)
  case Nil
  then show ?thesis by simp
next
  case (Cons y ys')
  with assms have "y \<noteq> LF" by simp
  then have "replaceCRLF (xs @ y # ys') = replaceCRLF xs @ replaceCRLF (y # ys')"
    by (induction xs rule: replaceCRLF.induct) simp_all
  then show ?thesis by (simp only: Cons)
qed

lemma set_replaceCRLF: "set (replaceCRLF xs) \<subseteq> set xs"
  by (induction xs rule: replaceCRLF.induct) auto

lemma replaceCR_breaks:
  "set xs \<subseteq> {CR, LF} \<Longrightarrow> replaceCR xs = replicate (length xs) LF"
  by (induction xs) (auto simp: replaceCR_def)

lemma replaceRuns_run:
  assumes "ys = [] \<or> hd ys \<noteq> c"
  shows "replaceRuns c k r (replicate n c @ ys)
           = (if n = 0 then [] else if k \<le> n then r else replicate n c) @ replaceRuns c k r ys"
proof (induction n)
  case 0
  show ?case by simp
next
  case (Suc n)
  from assms have z: "runLength c ys = 0" "dropWhile (\<lambda>y. y = c) ys = ys"
    by (cases ys; simp add: runLength_Cons runLength_Nil)+
  have d: "dropWhile (\<lambda>y. y = c) (replicate n c @ ys) = ys"
    by (induction n) (simp_all add: z)
  show ?case
  proof (cases "k \<le> Suc n")
    case True
    then show ?thesis
      by (simp add: replaceRuns_Cons runLength_replicate_append z d)
  next
    case False
    with Suc show ?thesis
      by (simp add: replaceRuns_Cons runLength_replicate_append z)
  qed
qed

lemma replaceRuns_other: "x \<noteq> c \<Longrightarrow> replaceRuns c k r (x # xs) = x # replaceRuns c k r xs"
  by (simp add: replaceRuns_Cons)

lemma replaceRuns_others:
  "c \<notin> set xs \<Longrightarrow> replaceRuns c k r (xs @ ys) = xs @ replaceRuns c k r ys"
  by (induction xs) (auto simp: replaceRuns_other)

lemma replacements_stages: "replacements t = blanks (lineBreaks t)"
  by (simp add: replacements_def blanks_def lineBreaks_def)

lemma lineBreaks_Nil: "lineBreaks [] = []"
  by (simp add: lineBreaks_def replaceCR_def)

lemma blanks_Nil: "blanks [] = []"
  by (simp add: blanks_def)

lemma lineBreaks_other:
  "x \<noteq> CR \<Longrightarrow> x \<noteq> LF \<Longrightarrow> lineBreaks (x # xs) = x # lineBreaks xs"
  by (simp add: lineBreaks_def replaceCRLF_Cons replaceCR_def replaceRuns_other)

lemma min_replicate:
  "0 < n \<Longrightarrow> (if 3 \<le> n then [LF, LF] else replicate n LF) = replicate (min n 2) LF"
proof -
  assume "0 < n"
  then consider "n = 1" | "n = 2" | "3 \<le> n" by linarith
  then show ?thesis by cases (simp_all add: min_def numeral_2_eq_2)
qed

lemma lineBreaks_append:
  assumes ne: "br \<noteq> []" and b: "set br \<subseteq> {CR, LF}"
    and h: "rest = [] \<or> (hd rest \<noteq> CR \<and> hd rest \<noteq> LF)"
  shows "lineBreaks (br @ rest) = replicate (min (lineEndings br) 2) LF @ lineBreaks rest"
proof -
  from h have h1: "rest = [] \<or> hd rest \<noteq> LF" by blast
  have a: "replaceCRLF (br @ rest) = replaceCRLF br @ replaceCRLF rest"
    using h1 by (rule replaceCRLF_append)
  have "set (replaceCRLF br) \<subseteq> {CR, LF}" using set_replaceCRLF[of br] b by blast
  then have c: "replaceCR (replaceCRLF br) = replicate (lineEndings br) LF"
    by (simp add: replaceCR_breaks lineEndings_length)
  have n: "0 < lineEndings br"
    using ne by (cases br rule: replaceCRLF.cases) (simp_all add: lineEndings_length)
  have r: "replaceCR (replaceCRLF rest) = [] \<or> hd (replaceCR (replaceCRLF rest)) \<noteq> LF"
  proof (cases rest)
    case Nil
    then show ?thesis by (simp add: replaceCR_def)
  next
    case (Cons y ys)
    with h have "y \<noteq> CR" "y \<noteq> LF" by auto
    then show ?thesis by (simp add: Cons replaceCRLF_Cons replaceCR_def)
  qed
  have d: "replaceCR (xs @ ys) = replaceCR xs @ replaceCR ys" for xs ys
    by (simp add: replaceCR_def)
  have "lineBreaks (br @ rest)
          = replaceRuns LF 3 [LF, LF] (replicate (lineEndings br) LF @ replaceCR (replaceCRLF rest))"
    unfolding lineBreaks_def by (simp only: a d c)
  also have "\<dots> = (if 3 \<le> lineEndings br then [LF, LF] else replicate (lineEndings br) LF)
                    @ lineBreaks rest"
    unfolding replaceRuns_run[OF r] lineBreaks_def using n by simp
  also have "\<dots> = replicate (min (lineEndings br) 2) LF @ lineBreaks rest"
    by (simp only: min_replicate[OF n])
  finally show ?thesis .
qed

lemma lineBreaks_run:
  assumes "x = CR \<or> x = LF"
  shows "lineBreaks (x # xs)
           = replicate (min (lineEndings (takeWhile (\<lambda>c. c = CR \<or> c = LF) (x # xs))) 2) LF
             @ lineBreaks (dropWhile (\<lambda>c. c = CR \<or> c = LF) (x # xs))"
proof -
  define br where "br = takeWhile (\<lambda>c. c = CR \<or> c = LF) (x # xs)"
  define rest where "rest = dropWhile (\<lambda>c. c = CR \<or> c = LF) (x # xs)"
  have t: "x # xs = br @ rest" unfolding br_def rest_def by (rule takeWhile_dropWhile_id[symmetric])
  have b: "set br \<subseteq> {CR, LF}"
    unfolding br_def using set_takeWhileD[of _ "\<lambda>c. c = CR \<or> c = LF" "x # xs"] by blast
  have ne: "br \<noteq> []" unfolding br_def using assms by auto
  have h: "rest = [] \<or> (hd rest \<noteq> CR \<and> hd rest \<noteq> LF)"
    unfolding rest_def using hd_dropWhile[of "\<lambda>c. c = CR \<or> c = LF" "x # xs"] by blast
  from lineBreaks_append[OF ne b h] show ?thesis
    unfolding t[symmetric] unfolding br_def rest_def .
qed

lemma blanks_other:
  "x \<noteq> TAB \<Longrightarrow> x \<noteq> SP \<Longrightarrow> blanks (x # xs) = x # blanks xs"
  by (simp add: blanks_def replaceRuns_other)

lemma blanks_others:
  "TAB \<notin> set xs \<Longrightarrow> SP \<notin> set xs \<Longrightarrow> blanks (xs @ ys) = xs @ blanks ys"
  by (simp add: blanks_def replaceRuns_others)

lemma blanks_append:
  assumes ne: "bs \<noteq> []" and b: "set bs \<subseteq> {TAB, SP}"
    and h: "rest = [] \<or> (hd rest \<noteq> TAB \<and> hd rest \<noteq> SP)"
  shows "blanks (bs @ rest) = SP # blanks rest"
proof -
  from tabs_to_spaces[OF b] ne obtain m
    where m: "replaceRuns TAB (Suc 0) [SP] bs = replicate m SP" "0 < m" by auto
  have s: "replaceRuns TAB (Suc 0) [SP] (bs @ rest)
             = replicate m SP @ replaceRuns TAB (Suc 0) [SP] rest"
  proof (cases rest)
    case Nil
    then show ?thesis by (simp add: m)
  next
    case (Cons y ys)
    with h have "y \<noteq> TAB" by auto
    from replaceRuns_split[OF this, of "Suc 0" "[SP]" bs ys]
      replaceRuns_split[OF this, of "Suc 0" "[SP]" "[]" ys]
    show ?thesis by (simp add: Cons m)
  qed
  have r: "replaceRuns TAB (Suc 0) [SP] rest = [] \<or> hd (replaceRuns TAB (Suc 0) [SP] rest) \<noteq> SP"
  proof (cases rest)
    case Nil
    then show ?thesis by simp
  next
    case (Cons y ys)
    with h have "y \<noteq> TAB" "y \<noteq> SP" by auto
    then show ?thesis by (simp add: Cons replaceRuns_other)
  qed
  from m(2) consider "m = 1" | "2 \<le> m" by linarith
  then have i: "(if m = 0 then [] else if 2 \<le> m then [SP] else replicate m SP) = [SP]"
    by cases simp_all
  have "blanks (bs @ rest) = replaceRuns SP 2 [SP] (replicate m SP @ replaceRuns TAB (Suc 0) [SP] rest)"
    unfolding blanks_def by (simp only: s One_nat_def)
  also have "\<dots> = [SP] @ replaceRuns SP 2 [SP] (replaceRuns TAB (Suc 0) [SP] rest)"
    by (simp only: replaceRuns_run[OF r] i)
  also have "\<dots> = SP # blanks rest"
    unfolding blanks_def by (simp only: One_nat_def append_Cons append_Nil)
  finally show ?thesis .
qed

lemma blanks_run:
  assumes "x = TAB \<or> x = SP"
  shows "blanks (x # xs) = SP # blanks (dropWhile (\<lambda>c. c = TAB \<or> c = SP) (x # xs))"
proof -
  define bs where "bs = takeWhile (\<lambda>c. c = TAB \<or> c = SP) (x # xs)"
  define rest where "rest = dropWhile (\<lambda>c. c = TAB \<or> c = SP) (x # xs)"
  have t: "x # xs = bs @ rest" unfolding bs_def rest_def by (rule takeWhile_dropWhile_id[symmetric])
  have b: "set bs \<subseteq> {TAB, SP}"
    unfolding bs_def using set_takeWhileD[of _ "\<lambda>c. c = TAB \<or> c = SP" "x # xs"] by blast
  have ne: "bs \<noteq> []" unfolding bs_def using assms by auto
  have h: "rest = [] \<or> (hd rest \<noteq> TAB \<and> hd rest \<noteq> SP)"
    unfolding rest_def using hd_dropWhile[of "\<lambda>c. c = TAB \<or> c = SP" "x # xs"] by blast
  from blanks_append[OF ne b h] show ?thesis
    unfolding t[symmetric] unfolding rest_def .
qed

lemma lineBreaks_head:
  "x \<noteq> TAB \<Longrightarrow> x \<noteq> SP \<Longrightarrow> \<exists>y ys. lineBreaks (x # xs) = y # ys \<and> y \<noteq> TAB \<and> y \<noteq> SP"
proof (cases "x = CR \<or> x = LF")
  case True
  let ?br = "takeWhile (\<lambda>c. c = CR \<or> c = LF) (x # xs)"
  have "?br \<noteq> []" using True by auto
  then have "0 < lineEndings ?br"
    by (cases ?br rule: replaceCRLF.cases) (simp_all add: lineEndings_length)
  then obtain j where "min (lineEndings ?br) 2 = Suc j"
    by (cases "min (lineEndings ?br) 2") (simp_all add: min_def split: if_splits)
  then show ?thesis unfolding lineBreaks_run[OF True] by simp
next
  case False
  assume "x \<noteq> TAB" "x \<noteq> SP"
  with False show ?thesis by (simp add: lineBreaks_other)
qed

lemma dropWhile_lineBreaks:
  "dropWhile (\<lambda>c. c = TAB \<or> c = SP) (lineBreaks xs)
     = lineBreaks (dropWhile (\<lambda>c. c = TAB \<or> c = SP) xs)"
proof (induction xs)
  case Nil
  show ?case by (simp add: lineBreaks_Nil)
next
  case (Cons x xs)
  show ?case
  proof (cases "x = TAB \<or> x = SP")
    case True
    then have "lineBreaks (x # xs) = x # lineBreaks xs" by (auto simp: lineBreaks_other)
    with True Cons show ?thesis by auto
  next
    case False
    with lineBreaks_head[of x xs] obtain y ys
      where "lineBreaks (x # xs) = y # ys" "y \<noteq> TAB" "y \<noteq> SP" by blast
    with False show ?thesis by simp
  qed
qed

lemma replacements_collapse: "replacements t = collapse t"
proof (induction t rule: collapse.induct)
  case 1
  show ?case by (simp add: replacements_Nil)
next
  case (2 x xs)
  show ?case
  proof (cases "x = CR \<or> x = LF")
    case True
    let ?k = "min (lineEndings (takeWhile (\<lambda>c. c = CR \<or> c = LF) (x # xs))) 2"
    have "replacements (x # xs)
            = blanks (replicate ?k LF @ lineBreaks (dropWhile (\<lambda>c. c = CR \<or> c = LF) (x # xs)))"
      by (simp only: replacements_stages lineBreaks_run[OF True])
    also have "\<dots> = replicate ?k LF @ replacements (dropWhile (\<lambda>c. c = CR \<or> c = LF) (x # xs))"
      by (simp add: blanks_others replacements_stages)
    finally show ?thesis using True "2.IH"(1) by (simp add: collapse.simps(2))
  next
    case False
    then have l: "lineBreaks (x # xs) = x # lineBreaks xs" by (simp add: lineBreaks_other)
    show ?thesis
    proof (cases "x = TAB \<or> x = SP")
      case True
      have "replacements (x # xs) = SP # blanks (dropWhile (\<lambda>c. c = TAB \<or> c = SP) (x # lineBreaks xs))"
        by (simp only: replacements_stages l blanks_run[OF True])
      also have "dropWhile (\<lambda>c. c = TAB \<or> c = SP) (x # lineBreaks xs)
                   = lineBreaks (dropWhile (\<lambda>c. c = TAB \<or> c = SP) (x # xs))"
        using True dropWhile_lineBreaks[of xs] by auto
      finally show ?thesis
        using False True "2.IH"(2) by (simp add: collapse.simps(2) replacements_stages)
    next
      case b: False
      with False have "replacements (x # xs) = x # replacements xs"
        by (simp add: replacements_stages l blanks_other)
      with False b "2.IH"(3) show ?thesis by (simp add: collapse.simps(2))
    qed
  qed
qed

lemma cleanText_collapse: "cleanText (Some t) = trim (collapse t)"
  by (simp add: cleanText_replacements replacements_collapse trim_def)

text \<open>
  Claim C8, as amended.  For every input text \<open>cleanText\<close> returns what one pass over the
  text gives, trimmed: every maximal run of line endings (CR LF, a lone CR and a line feed
  each count as one) becomes one line feed if it holds one line ending and two line feeds,
  that is one blank line, if it holds two or more (so two or more blank lines become one);
  every maximal run of tabs and spaces becomes one space; every other code unit is kept;
  white space at both ends of the whole text is removed.  An absent text gives the empty
  text.  Hence every result has no CR and no tab, no run of three line feeds, no run of two
  spaces and no white space at its ends, and a text of that shape is returned as written;
  between two words a run of \<open>n\<close> line feeds becomes \<open>min n 2\<close> line feeds, CR LF and a lone
  CR become one line feed, and a run of tabs and spaces becomes one space; white space
  around a word is removed.
\<close>

theorem cleanText_normalizes:
  "cleanText None = [] \<and> cleanText (Some t) = trim (collapse t)
   \<and> normalized (cleanText inp)
   \<and> (normalized s \<longrightarrow> cleanText (Some s) = s)
   \<and> (plain u \<and> plain v \<longrightarrow>
        cleanText (Some (u @ replicate n LF @ v)) = u @ replicate (min n 2) LF @ v
        \<and> cleanText (Some (u @ [CR, LF] @ v)) = u @ [LF] @ v
        \<and> cleanText (Some (u @ [CR] @ v)) = u @ [LF] @ v
        \<and> (ws \<noteq> [] \<and> set ws \<subseteq> {TAB, SP} \<longrightarrow> cleanText (Some (u @ ws @ v)) = u @ [SP] @ v))
   \<and> (plain u \<and> list_all is_ws a \<and> list_all is_ws b \<longrightarrow> cleanText (Some (a @ u @ b)) = u)"
proof (intro conjI impI)
  show "cleanText None = []" by (simp add: cleanText_def)
next
  show "cleanText (Some t) = trim (collapse t)" by (rule cleanText_collapse)
next
  show "normalized (cleanText inp)" by (rule cleanText_normalized)
next
  assume "normalized s"
  then show "cleanText (Some s) = s" by (rule normalized_fixed)
next
  assume p: "plain u \<and> plain v"
  then show "cleanText (Some (u @ replicate n LF @ v)) = u @ replicate (min n 2) LF @ v"
    by (simp add: cleanText_between replacements_line_feeds)
  from p show "cleanText (Some (u @ [CR, LF] @ v)) = u @ [LF] @ v"
    by (simp only: cleanText_between replacements_CR)
  from p show "cleanText (Some (u @ [CR] @ v)) = u @ [LF] @ v"
    by (simp only: cleanText_between replacements_CR)
  assume "ws \<noteq> [] \<and> set ws \<subseteq> {TAB, SP}"
  with p show "cleanText (Some (u @ ws @ v)) = u @ [SP] @ v"
    by (simp add: cleanText_between replacements_blanks)
next
  assume "plain u \<and> list_all is_ws a \<and> list_all is_ws b"
  then show "cleanText (Some (a @ u @ b)) = u" by (simp add: cleanText_around)
qed

lemma plain_a_b: "plain (ascii ''a'')" "plain (ascii ''b'')"
  by (simp_all add: plain_def is_ws_def ascii_def)

lemma collapse_sample:
  "trim (collapse ([SP] @ ascii ''a'' @ [CR, LF] @ ascii ''b'' @ [CR, LF, CR, LF, LF, CR]
                   @ ascii ''c'' @ [TAB, SP, TAB] @ ascii ''d'' @ [LF, SP]))
     = ascii ''a\<newline>b\<newline>\<newline>c d''"
  by (simp add: collapse.simps(2) trim_def is_ws_def ascii_def)

text \<open>Claim C8 as amended, at a text with every kind of run, and at words \<open>a\<close> and \<open>b\<close>.\<close>

theorem cleanText_normalizes_witness:
  "cleanText (Some ([SP] @ ascii ''a'' @ [CR, LF] @ ascii ''b'' @ [CR, LF, CR, LF, LF, CR]
                   @ ascii ''c'' @ [TAB, SP, TAB] @ ascii ''d'' @ [LF, SP]))
     = ascii ''a\<newline>b\<newline>\<newline>c d''
   \<and> normalized (ascii ''a b'') \<and> cleanText (Some (ascii ''a b'')) = ascii ''a b''
   \<and> plain (ascii ''a'') \<and> plain (ascii ''b'')
   \<and> cleanText (Some (ascii ''a'' @ replicate 5 LF @ ascii ''b'')) = ascii ''a'' @ [LF, LF] @ ascii ''b''
   \<and> cleanText (Some (ascii ''a'' @ [CR, LF] @ ascii ''b'')) = ascii ''a'' @ [LF] @ ascii ''b''
   \<and> cleanText (Some (ascii ''a'' @ [CR] @ ascii ''b'')) = ascii ''a'' @ [LF] @ ascii ''b''
   \<and> [TAB, SP, TAB] \<noteq> [] \<and> set [TAB, SP, TAB] \<subseteq> {TAB, SP}
   \<and> cleanText (Some (ascii ''a'' @ [TAB, SP, TAB] @ ascii ''b'')) = ascii ''a'' @ [SP] @ ascii ''b''
   \<and> list_all is_ws [SP, LF] \<and> list_all is_ws [TAB]
   \<and> cleanText (Some ([SP, LF] @ ascii ''a'' @ [TAB])) = ascii ''a''"
proof -
  have n: "normalized (ascii ''a b'')"
    by (simp add: normalized_def runLength_Cons runLength_Nil isTrimmed_def is_ws_def ascii_def)
  have w: "[TAB, SP, TAB] \<noteq> []" "set [TAB, SP, TAB] \<subseteq> {TAB, SP}"
    "list_all is_ws [SP, LF]" "list_all is_ws [TAB]"
    by (simp_all add: is_ws_def)
  have r: "replicate (min 5 2) LF = [LF, LF]"
    by (simp add: numeral_2_eq_2)
  note T = cleanText_normalizes[of "[SP] @ ascii ''a'' @ [CR, LF] @ ascii ''b'' @ [CR, LF, CR, LF, LF, CR]
                   @ ascii ''c'' @ [TAB, SP, TAB] @ ascii ''d'' @ [LF, SP]"
      "None" "ascii ''a b''" "ascii ''a''" "ascii ''b''" 5
      "[TAB, SP, TAB]" "[SP, LF]" "[TAB]"]
  from T have "cleanText (Some ([SP] @ ascii ''a'' @ [CR, LF] @ ascii ''b'' @ [CR, LF, CR, LF, LF, CR]
                   @ ascii ''c'' @ [TAB, SP, TAB] @ ascii ''d'' @ [LF, SP]))
     = trim (collapse ([SP] @ ascii ''a'' @ [CR, LF] @ ascii ''b'' @ [CR, LF, CR, LF, LF, CR]
                   @ ascii ''c'' @ [TAB, SP, TAB] @ ascii ''d'' @ [LF, SP]))" by blast
  then have c0: "cleanText (Some ([SP] @ ascii ''a'' @ [CR, LF] @ ascii ''b'' @ [CR, LF, CR, LF, LF, CR]
                   @ ascii ''c'' @ [TAB, SP, TAB] @ ascii ''d'' @ [LF, SP]))
     = ascii ''a\<newline>b\<newline>\<newline>c d''" by (simp only: collapse_sample)
  from T n have c1: "cleanText (Some (ascii ''a b'')) = ascii ''a b''" by blast
  from T plain_a_b have "cleanText (Some (ascii ''a'' @ replicate 5 LF @ ascii ''b''))
      = ascii ''a'' @ replicate (min 5 2) LF @ ascii ''b''" by blast
  then have c2: "cleanText (Some (ascii ''a'' @ replicate 5 LF @ ascii ''b''))
      = ascii ''a'' @ [LF, LF] @ ascii ''b''" by (simp only: r)
  from T plain_a_b
  have c3: "cleanText (Some (ascii ''a'' @ [CR, LF] @ ascii ''b'')) = ascii ''a'' @ [LF] @ ascii ''b''"
    and c4: "cleanText (Some (ascii ''a'' @ [CR] @ ascii ''b'')) = ascii ''a'' @ [LF] @ ascii ''b''"
    by blast+
  from T plain_a_b w
  have c5: "cleanText (Some (ascii ''a'' @ [TAB, SP, TAB] @ ascii ''b'')) = ascii ''a'' @ [SP] @ ascii ''b''"
    by blast
  from T plain_a_b w
  have c6: "cleanText (Some ([SP, LF] @ ascii ''a'' @ [TAB])) = ascii ''a''"
    by blast
  from c0 n c1 plain_a_b c2 c3 c4 w c5 c6 show ?thesis by blast
qed

text \<open>
  Claim C8 as stated fails: between \<open>a\<close> and \<open>b\<close> stand two blank lines, a run of fewer than
  three, and it is not left as written: one blank line remains.
\<close>

theorem blank_lines_counterexample:
  "splitLines (ascii ''a\<newline>\<newline>\<newline>b'') = [ascii ''a'', [], [], ascii ''b'']
   \<and> splitLines (cleanText (Some (ascii ''a\<newline>\<newline>\<newline>b''))) = [ascii ''a'', [], ascii ''b'']"
proof -
  have "cleanText (Some (ascii ''a'' @ replicate 3 LF @ ascii ''b'')) = ascii ''a'' @ replicate (min 3 2) LF @ ascii ''b''"
    by (simp add: cleanText_between[OF plain_a_b] replacements_line_feeds)
  then have "cleanText (Some (ascii ''a\<newline>\<newline>\<newline>b'')) = ascii ''a\<newline>\<newline>b''"
    by (simp add: ascii_def numeral_3_eq_3 numeral_2_eq_2)
  then show ?thesis by (simp add: ascii_def)
qed

section \<open>Spreadsheet strategy\<close>

subsection \<open>The text of a workbook\<close>

lemma foldl_appendRow:
  "foldl appendRow acc rows
     = acc @ concat (map (\<lambda>row. join [TAB] row @ [LF]) (filter (\<lambda>row. row \<noteq> []) rows))"
  by (induction rows arbitrary: acc) (simp_all add: appendRow_def)

lemma appendSheet_block: "appendSheet wb acc name = acc @ sheetBlock wb name"
  by (simp add: appendSheet_def sheetBlock_def foldl_appendRow)

lemma foldl_appendSheet:
  "foldl (appendSheet wb) acc names = acc @ concat (map (sheetBlock wb) names)"
  by (induction names arbitrary: acc) (simp_all add: appendSheet_block)

lemma excelText_blocks: "excelText wb = concat (map (sheetBlock wb) (SheetNames wb))"
  by (simp add: excelText_def foldl_appendSheet)

lemma cleanText_no_tab: "TAB \<notin> set (cleanText inp)"
  using cleanText_normalized[of inp] by (simp add: normalized_def)

subsection \<open>Texts made of solid pieces\<close>

lemma replacements_append_hd:
  assumes "ys = [] \<or> \<not> is_ws (hd ys)"
  shows "replacements (xs @ ys) = replacements xs @ replacements ys"
proof (cases ys)
  case Nil
  then show ?thesis by (simp add: replacements_Nil)
next
  case (Cons y ys')
  with assms have o: "ordinary y" by (simp add: not_ws_ordinary)
  from replacements_split[OF o, of xs ys'] replacements_split[OF o, of "[]" ys']
  show ?thesis by (simp add: Cons replacements_Nil)
qed

lemma replacements_append_last:
  assumes "xs = [] \<or> \<not> is_ws (last xs)"
  shows "replacements (xs @ ys) = replacements xs @ replacements ys"
proof (cases xs rule: rev_cases)
  case Nil
  then show ?thesis by (simp add: replacements_Nil)
next
  case (snoc xs' x)
  with assms have o: "ordinary x" by (simp add: not_ws_ordinary)
  from replacements_split[OF o, of xs' ys] replacements_split[OF o, of xs' "[]"]
  show ?thesis by (simp add: snoc replacements_Nil)
qed

lemma solid_append: "solid xs \<Longrightarrow> solid ys \<Longrightarrow> solid (xs @ m @ ys)"
  by (simp add: solid_def)

lemma replacements_solid_append:
  "solid xs \<Longrightarrow> solid ys \<Longrightarrow>
     replacements (xs @ m @ ys) = replacements xs @ replacements m @ replacements ys"
  by (simp add: solid_def replacements_append_hd replacements_append_last)

lemma plain_solid: "plain w \<Longrightarrow> solid w"
  by (cases w rule: rev_cases) (auto simp: plain_def solid_def list_all_iff hd_append)

lemma replacements_plain: "plain w \<Longrightarrow> replacements w = w"
  using replacements_prefix[of w "[]"]
  by (simp add: plain_def list_all_iff not_ws_ordinary replacements_Nil)

lemma join_solid:
  "ls \<noteq> [] \<Longrightarrow> list_all solid ls \<Longrightarrow>
     solid (join sep ls) \<and> replacements (join sep ls) = join (replacements sep) (map replacements ls)"
proof (induction sep ls rule: join.induct)
  case (1 sep)
  then show ?case by simp
next
  case (2 sep x)
  then show ?case by simp
next
  case (3 sep x y ys)
  then have x: "solid x" and r: "solid (join sep (y # ys))"
    and e: "replacements (join sep (y # ys)) = join (replacements sep) (map replacements (y # ys))"
    by simp_all
  from solid_append[OF x r, of sep] replacements_solid_append[OF x r, of sep] e
  show ?case by simp
qed

lemma join_lines: "join [LF] (h # ls) @ [LF] = h @ [LF] @ concat (map (\<lambda>l. l @ [LF]) ls)"
  by (induction ls arbitrary: h) simp_all

lemma concat_join: "ls \<noteq> [] \<Longrightarrow> concat (map (\<lambda>l. l @ sep) ls) = join sep ls @ sep"
  by (induction sep ls rule: join.induct) simp_all

lemma trim_solid:
  assumes "solid x" "list_all is_ws b"
  shows "trim (x @ b) = x"
proof -
  from assms(1) obtain c cs where x: "x = c # cs" and c: "\<not> is_ws c"
    by (cases x) (auto simp: solid_def)
  from assms(1) obtain d ds where r: "rev x = d # ds" and d: "\<not> is_ws d"
    by (cases "rev x") (auto simp: solid_def hd_rev)
  have "dropWhile is_ws (x @ b) = x @ b" using c by (simp add: x)
  moreover have "dropWhile is_ws (rev b @ rev x) = dropWhile is_ws (rev x)"
    using assms(2) by (intro dropWhile_append2) (simp add: list_all_iff)
  moreover have "dropWhile is_ws (rev x) = rev x" using d by (simp add: r)
  ultimately show ?thesis by (simp add: trim_def)
qed

lemma separators:
  "replacements [TAB] = [SP]" "replacements [SP] = [SP]" "replacements [LF] = [LF]"
  "replacements [LF, LF] = [LF, LF]"
proof -
  show "replacements [TAB] = [SP]" "replacements [SP] = [SP]"
    by (simp_all add: replacements_blanks)
  from replacements_line_feeds[of 1] show "replacements [LF] = [LF]" by simp
  from replacements_line_feeds[of 2] show "replacements [LF, LF] = [LF, LF]"
    by (simp add: numeral_2_eq_2)
qed

lemma row_line:
  assumes "row \<noteq> []" "list_all plain row"
  shows "solid (join [TAB] row)" "replacements (join [TAB] row) = join [SP] row"
    "solid (join [SP] row)"
proof -
  have s: "list_all solid row" using assms(2) by (simp add: list_all_iff plain_solid)
  have m: "map replacements row = row"
    using assms(2) by (simp add: list_all_iff map_idI replacements_plain)
  from join_solid[OF assms(1) s, of "[TAB]"] m
  show "solid (join [TAB] row)" "replacements (join [TAB] row) = join [SP] row"
    by (simp_all add: separators)
  from join_solid[OF assms(1) s, of "[SP]"] show "solid (join [SP] row)" by simp
qed

lemma header_line:
  assumes "plain name"
  shows "solid (ascii ''Sheet: '' @ name)"
    "replacements (ascii ''Sheet: '' @ name) = ascii ''Sheet: '' @ name"
proof -
  have p: "plain (ascii ''Sheet:'')" by (simp add: plain_def is_ws_def ascii_def)
  have e: "ascii ''Sheet: '' @ name = ascii ''Sheet:'' @ [SP] @ name" by (simp add: ascii_def)
  from solid_append[OF plain_solid[OF p] plain_solid[OF assms], of "[SP]"]
  show "solid (ascii ''Sheet: '' @ name)" by (simp only: e)
  from replacements_solid_append[OF plain_solid[OF p] plain_solid[OF assms], of "[SP]"]
  show "replacements (ascii ''Sheet: '' @ name) = ascii ''Sheet: '' @ name"
    by (simp only: e separators replacements_plain[OF p] replacements_plain[OF assms])
qed

lemma sheetBlock_body: "sheetBlock wb name = sheetBody wb name @ [LF, LF]"
proof -
  let ?ls = "map (join [TAB]) (filter (\<lambda>row. row \<noteq> []) (Sheets wb name))"
  have "sheetBlock wb name = (ascii ''Sheet: '' @ name) @ [LF] @ concat (map (\<lambda>l. l @ [LF]) ?ls) @ [LF]"
    by (simp add: sheetBlock_def comp_def)
  also have "\<dots> = (join [LF] ((ascii ''Sheet: '' @ name) # ?ls) @ [LF]) @ [LF]"
    by (simp only: join_lines append_assoc)
  finally show ?thesis by (simp add: sheetBody_def)
qed

lemma sheet_body:
  assumes "plain name" "list_all (list_all plain) (Sheets wb name)"
  shows "solid (sheetBody wb name)" "replacements (sheetBody wb name) = sheetView wb name"
    "solid (sheetView wb name)"
proof -
  let ?rows = "filter (\<lambda>row. row \<noteq> []) (Sheets wb name)"
  let ?h = "ascii ''Sheet: '' @ name"
  have ne: "r \<noteq> []" and pl: "list_all plain r" if "r \<in> set ?rows" for r
    using assms(2) that by (auto simp: list_all_iff)
  have t1: "solid l" if "l \<in> set (map (join [TAB]) ?rows)" for l
  proof -
    from that obtain r where "r \<in> set ?rows" "l = join [TAB] r" by auto
    with row_line(1)[OF ne pl] show ?thesis by simp
  qed
  have t2: "solid l" if "l \<in> set (map (join [SP]) ?rows)" for l
  proof -
    from that obtain r where "r \<in> set ?rows" "l = join [SP] r" by auto
    with row_line(3)[OF ne pl] show ?thesis by simp
  qed
  have s1: "list_all solid (?h # map (join [TAB]) ?rows)"
    unfolding list_all_iff using header_line(1)[OF assms(1)] t1 by (simp only: set_simps) blast
  have s2: "list_all solid (?h # map (join [SP]) ?rows)"
    unfolding list_all_iff using header_line(1)[OF assms(1)] t2 by (simp only: set_simps) blast
  have "map (replacements \<circ> join [TAB]) ?rows = map (join [SP]) ?rows"
    by (rule map_cong[OF refl]) (simp only: comp_apply row_line(2)[OF ne pl])
  then have m: "map replacements (?h # map (join [TAB]) ?rows) = ?h # map (join [SP]) ?rows"
    by (simp only: list.map map_map header_line(2)[OF assms(1)])
  have j1: "solid (join [LF] (?h # map (join [TAB]) ?rows))
      \<and> replacements (join [LF] (?h # map (join [TAB]) ?rows))
          = join (replacements [LF]) (map replacements (?h # map (join [TAB]) ?rows))"
    by (rule join_solid[OF _ s1]) (rule list.distinct)
  from j1 show "solid (sheetBody wb name)" unfolding sheetBody_def by (rule conjunct1)
  from j1 show "replacements (sheetBody wb name) = sheetView wb name"
    unfolding sheetBody_def sheetView_def by (simp only: m separators)
  have "solid (join [LF] (?h # map (join [SP]) ?rows))
      \<and> replacements (join [LF] (?h # map (join [SP]) ?rows))
          = join (replacements [LF]) (map replacements (?h # map (join [SP]) ?rows))"
    by (rule join_solid[OF _ s2]) (rule list.distinct)
  then show "solid (sheetView wb name)" unfolding sheetView_def by (rule conjunct1)
qed

lemma cleanText_workbook:
  assumes "wordsOnly wb"
  shows "cleanText (Some (excelText wb)) = join [LF, LF] (map (sheetView wb) (SheetNames wb))"
proof (cases "SheetNames wb = []")
  case True
  then show ?thesis by (simp add: excelText_blocks cleanText_def)
next
  case False
  let ?names = "SheetNames wb"
  have each: "solid (sheetBody wb name) \<and> replacements (sheetBody wb name) = sheetView wb name
      \<and> solid (sheetView wb name)" if "name \<in> set ?names" for name
  proof -
    from assms that have "plain name" "list_all (list_all plain) (Sheets wb name)"
      by (simp_all add: wordsOnly_def list_all_iff)
    from sheet_body[OF this] show ?thesis by blast
  qed
  have raw: "excelText wb = join [LF, LF] (map (sheetBody wb) ?names) @ [LF, LF]"
  proof -
    have "sheetBlock wb = (\<lambda>name. sheetBody wb name @ [LF, LF])"
      by (rule ext) (rule sheetBlock_body)
    then have "excelText wb = concat (map (\<lambda>l. l @ [LF, LF]) (map (sheetBody wb) ?names))"
      by (simp add: excelText_blocks comp_def)
    also have "\<dots> = join [LF, LF] (map (sheetBody wb) ?names) @ [LF, LF]"
      using False by (intro concat_join) simp
    finally show ?thesis .
  qed
  have ne: "map (sheetBody wb) ?names \<noteq> []" "map (sheetView wb) ?names \<noteq> []"
    using False by simp_all
  have sb: "list_all solid (map (sheetBody wb) ?names)"
    and sv: "list_all solid (map (sheetView wb) ?names)"
    using each by (simp_all add: list_all_iff)
  have mm: "map (replacements \<circ> sheetBody wb) ?names = map (sheetView wb) ?names"
    by (rule map_cong[OF refl]) (simp add: each)
  from join_solid[OF ne(1) sb, of "[LF, LF]"]
  have j1: "solid (join [LF, LF] (map (sheetBody wb) ?names))"
    and j2: "replacements (join [LF, LF] (map (sheetBody wb) ?names))
               = join [LF, LF] (map (sheetView wb) ?names)"
    by (simp_all add: separators mm)
  from join_solid[OF ne(2) sv, of "[LF, LF]"]
  have j3: "solid (join [LF, LF] (map (sheetView wb) ?names))" by simp
  have "replacements (excelText wb)
          = replacements (join [LF, LF] (map (sheetBody wb) ?names)) @ replacements [LF, LF]"
    unfolding raw using j1 by (intro replacements_append_last) (simp add: solid_def)
  then have r: "replacements (excelText wb) = join [LF, LF] (map (sheetView wb) ?names) @ [LF, LF]"
    by (simp only: j2 separators)
  have "excelText wb \<noteq> []" by (simp add: raw)
  then have "cleanText (Some (excelText wb)) = trim (replacements (excelText wb))"
    by (simp only: cleanText_replacements if_False)
  also have "\<dots> = join [LF, LF] (map (sheetView wb) ?names)"
    unfolding r using j3 by (intro trim_solid) (simp_all add: is_ws_def)
  finally show ?thesis .
qed

lemma processExcel_workbook:
  "xlsx_readFile E filePath = Inr wb \<Longrightarrow>
     processExcel E filePath = Inr (cleanText (Some (excelText wb)))"
  by (simp add: processExcel_def)

lemma solid_collapse:
  assumes "solid x"
  shows "solid (collapse x)"
proof -
  from assms have ne: "x \<noteq> []" and c: "\<not> is_ws (hd x)" and d: "\<not> is_ws (last x)"
    by (simp_all add: solid_def)
  from ne have x: "x = hd x # tl x" and y: "x = butlast x @ [last x]" by simp_all
  from replacements_split[OF not_ws_ordinary[OF c], of "[]" "tl x"]
  have h: "replacements x = hd x # replacements (tl x)"
    by (simp only: x[symmetric] append_Nil replacements_Nil)
  from replacements_split[OF not_ws_ordinary[OF d], of "butlast x" "[]"]
  have l: "replacements x = replacements (butlast x) @ [last x]"
    by (simp only: y[symmetric] replacements_Nil)
  have "hd (replacements x) = hd x" by (simp add: h)
  moreover have "last (replacements x) = last x" by (subst l) simp
  moreover have "replacements x \<noteq> []" by (simp add: h)
  ultimately have "solid (replacements x)"
    unfolding solid_def using c d by simp
  then show ?thesis by (simp only: replacements_collapse)
qed

lemma row_cells:
  assumes "row \<noteq> []" "list_all solid row"
  shows "solid (join [TAB] row)"
    "replacements (join [TAB] row) = join [SP] (map collapse row)"
    "solid (join [SP] (map collapse row))"
proof -
  have m: "map replacements row = map collapse row"
    by (rule map_cong[OF refl]) (rule replacements_collapse)
  from join_solid[OF assms, of "[TAB]"]
  show "solid (join [TAB] row)" "replacements (join [TAB] row) = join [SP] (map collapse row)"
    by (simp_all add: separators m)
  have "list_all solid (map collapse row)"
    using assms(2) by (simp add: list_all_iff solid_collapse)
  moreover have "map collapse row \<noteq> []" using assms(1) by simp
  ultimately show "solid (join [SP] (map collapse row))"
    using join_solid[of "map collapse row" "[SP]"] by blast
qed

lemma header_cells:
  assumes "solid name"
  shows "solid (ascii ''Sheet: '' @ name)"
    "replacements (ascii ''Sheet: '' @ name) = ascii ''Sheet: '' @ collapse name"
    "solid (ascii ''Sheet: '' @ collapse name)"
proof -
  have p: "plain (ascii ''Sheet:'')" by (simp add: plain_def is_ws_def ascii_def)
  have e: "ascii ''Sheet: '' @ n = ascii ''Sheet:'' @ [SP] @ n" for n by (simp add: ascii_def)
  from solid_append[OF plain_solid[OF p] assms, of "[SP]"]
  show "solid (ascii ''Sheet: '' @ name)" by (simp only: e)
  from replacements_solid_append[OF plain_solid[OF p] assms, of "[SP]"]
  show "replacements (ascii ''Sheet: '' @ name) = ascii ''Sheet: '' @ collapse name"
    by (simp only: e separators replacements_plain[OF p] replacements_collapse[of name, symmetric])
  from solid_append[OF plain_solid[OF p] solid_collapse[OF assms], of "[SP]"]
  show "solid (ascii ''Sheet: '' @ collapse name)" by (simp only: e)
qed

lemma sheet_text:
  assumes "solid name" "list_all (list_all solid) (Sheets wb name)"
  shows "solid (sheetBody wb name)" "replacements (sheetBody wb name) = sheetText wb name"
    "solid (sheetText wb name)"
proof -
  let ?rows = "filter (\<lambda>row. row \<noteq> []) (Sheets wb name)"
  let ?h = "ascii ''Sheet: '' @ name"
  let ?h' = "ascii ''Sheet: '' @ collapse name"
  let ?cells = "\<lambda>row. join [SP] (map collapse row)"
  have ne: "r \<noteq> []" and pl: "list_all solid r" if "r \<in> set ?rows" for r
    using assms(2) that by (auto simp: list_all_iff)
  have t1: "solid l" if "l \<in> set (map (join [TAB]) ?rows)" for l
  proof -
    from that obtain r where "r \<in> set ?rows" "l = join [TAB] r" by auto
    with row_cells(1)[OF ne pl] show ?thesis by simp
  qed
  have t2: "solid l" if "l \<in> set (map ?cells ?rows)" for l
  proof -
    from that obtain r where "r \<in> set ?rows" "l = ?cells r" by auto
    with row_cells(3)[OF ne pl] show ?thesis by simp
  qed
  have s1: "list_all solid (?h # map (join [TAB]) ?rows)"
    unfolding list_all_iff using header_cells(1)[OF assms(1)] t1 by (simp only: set_simps) blast
  have s2: "list_all solid (?h' # map ?cells ?rows)"
    unfolding list_all_iff using header_cells(3)[OF assms(1)] t2 by (simp only: set_simps) blast
  have "map (replacements \<circ> join [TAB]) ?rows = map ?cells ?rows"
    by (rule map_cong[OF refl]) (simp only: comp_apply row_cells(2)[OF ne pl])
  then have m: "map replacements (?h # map (join [TAB]) ?rows) = ?h' # map ?cells ?rows"
    by (simp only: list.map map_map header_cells(2)[OF assms(1)])
  have j1: "solid (join [LF] (?h # map (join [TAB]) ?rows))
      \<and> replacements (join [LF] (?h # map (join [TAB]) ?rows))
          = join (replacements [LF]) (map replacements (?h # map (join [TAB]) ?rows))"
    by (rule join_solid[OF _ s1]) (rule list.distinct)
  from j1 show "solid (sheetBody wb name)" unfolding sheetBody_def by (rule conjunct1)
  from j1 show "replacements (sheetBody wb name) = sheetText wb name"
    unfolding sheetBody_def sheetText_def by (simp only: m separators)
  have "solid (join [LF] (?h' # map ?cells ?rows))
      \<and> replacements (join [LF] (?h' # map ?cells ?rows))
          = join (replacements [LF]) (map replacements (?h' # map ?cells ?rows))"
    by (rule join_solid[OF _ s2]) (rule list.distinct)
  then show "solid (sheetText wb name)" unfolding sheetText_def by (rule conjunct1)
qed

lemma cleanText_cells:
  assumes "solidCells wb"
  shows "cleanText (Some (excelText wb)) = join [LF, LF] (map (sheetText wb) (SheetNames wb))"
proof (cases "SheetNames wb = []")
  case True
  then show ?thesis by (simp add: excelText_blocks cleanText_def)
next
  case False
  let ?names = "SheetNames wb"
  have each: "solid (sheetBody wb name) \<and> replacements (sheetBody wb name) = sheetText wb name
      \<and> solid (sheetText wb name)" if "name \<in> set ?names" for name
  proof -
    from assms that have "solid name" "list_all (list_all solid) (Sheets wb name)"
      by (simp_all add: solidCells_def list_all_iff)
    from sheet_text[OF this] show ?thesis by blast
  qed
  have raw: "excelText wb = join [LF, LF] (map (sheetBody wb) ?names) @ [LF, LF]"
  proof -
    have "sheetBlock wb = (\<lambda>name. sheetBody wb name @ [LF, LF])"
      by (rule ext) (rule sheetBlock_body)
    then have "excelText wb = concat (map (\<lambda>l. l @ [LF, LF]) (map (sheetBody wb) ?names))"
      by (simp add: excelText_blocks comp_def)
    also have "\<dots> = join [LF, LF] (map (sheetBody wb) ?names) @ [LF, LF]"
      using False by (intro concat_join) simp
    finally show ?thesis .
  qed
  have ne: "map (sheetBody wb) ?names \<noteq> []" "map (sheetText wb) ?names \<noteq> []"
    using False by simp_all
  have sb: "list_all solid (map (sheetBody wb) ?names)"
    and sv: "list_all solid (map (sheetText wb) ?names)"
    using each by (simp_all add: list_all_iff)
  have mm: "map (replacements \<circ> sheetBody wb) ?names = map (sheetText wb) ?names"
    by (rule map_cong[OF refl]) (simp add: each)
  from join_solid[OF ne(1) sb, of "[LF, LF]"]
  have j1: "solid (join [LF, LF] (map (sheetBody wb) ?names))"
    and j2: "replacements (join [LF, LF] (map (sheetBody wb) ?names))
               = join [LF, LF] (map (sheetText wb) ?names)"
    by (simp_all add: separators mm)
  from join_solid[OF ne(2) sv, of "[LF, LF]"]
  have j3: "solid (join [LF, LF] (map (sheetText wb) ?names))" by simp
  have "replacements (excelText wb)
          = replacements (join [LF, LF] (map (sheetBody wb) ?names)) @ replacements [LF, LF]"
    unfolding raw using j1 by (intro replacements_append_last) (simp add: solid_def)
  then have r: "replacements (excelText wb) = join [LF, LF] (map (sheetText wb) ?names) @ [LF, LF]"
    by (simp only: j2 separators)
  have "excelText wb \<noteq> []" by (simp add: raw)
  then have "cleanText (Some (excelText wb)) = trim (replacements (excelText wb))"
    by (simp only: cleanText_replacements if_False)
  also have "\<dots> = join [LF, LF] (map (sheetText wb) ?names)"
    unfolding r using j3 by (intro trim_solid) (simp_all add: is_ws_def)
  finally show ?thesis .
qed

text \<open>
  Claim C9, as amended.  For every workbook the Spreadsheet strategy builds the text of the
  specification (for every sheet its name line, a tab-joined line for each row that has
  cells, and a blank line) and returns it through \<open>cleanText\<close>: the returned text is that
  text after the one pass of the normalisation and the trim, and it has no tab.  For a
  workbook whose sheet names and cells are words, the returned text is the sheets separated
  by one blank line, each the line \<open>Sheet: name\<close> followed by one line per row that has
  cells, the cells of a row separated by single spaces, with no blank line at the end.  The
  same layout holds for a workbook whose sheet names and cells are not empty and neither
  begin nor end with white space, each name and cell being normalised itself (a cell that
  holds line endings then spreads over several lines).
\<close>

theorem processExcel_text:
  "xlsx_readFile E filePath = Inr wb \<longrightarrow>
     processExcel E filePath
       = Inr (cleanText (Some (concat (map (sheetBlock wb) (SheetNames wb)))))
     \<and> processExcel E filePath
       = Inr (trim (collapse (concat (map (sheetBlock wb) (SheetNames wb)))))
     \<and> (\<exists>t. processExcel E filePath = Inr t \<and> TAB \<notin> set t)
     \<and> (wordsOnly wb \<longrightarrow>
          processExcel E filePath = Inr (join [LF, LF] (map (sheetView wb) (SheetNames wb))))
     \<and> (solidCells wb \<longrightarrow>
          processExcel E filePath = Inr (join [LF, LF] (map (sheetText wb) (SheetNames wb))))"
proof (intro impI conjI)
  assume r: "xlsx_readFile E filePath = Inr wb"
  from processExcel_workbook[OF r]
  show "processExcel E filePath
       = Inr (cleanText (Some (concat (map (sheetBlock wb) (SheetNames wb)))))"
    by (simp only: excelText_blocks)
  from processExcel_workbook[OF r]
  show "processExcel E filePath
       = Inr (trim (collapse (concat (map (sheetBlock wb) (SheetNames wb)))))"
    by (simp only: excelText_blocks cleanText_collapse)
  from processExcel_workbook[OF r] cleanText_no_tab[of "Some (excelText wb)"]
  show "\<exists>t. processExcel E filePath = Inr t \<and> TAB \<notin> set t" by blast
next
  assume r: "xlsx_readFile E filePath = Inr wb" and w: "wordsOnly wb"
  from processExcel_workbook[OF r] cleanText_workbook[OF w]
  show "processExcel E filePath = Inr (join [LF, LF] (map (sheetView wb) (SheetNames wb)))"
    by simp
next
  assume r: "xlsx_readFile E filePath = Inr wb" and s: "solidCells wb"
  from processExcel_workbook[OF r] cleanText_cells[OF s]
  show "processExcel E filePath = Inr (join [LF, LF] (map (sheetText wb) (SheetNames wb)))"
    by simp
qed

lemma reading_read: "xlsx_readFile (reading wb) filePath = Inr wb"
  by (simp add: reading_def sampleEnv_def)

lemma bookWords_words: "wordsOnly bookWords" "solidCells bookWords"
  by (simp_all add: wordsOnly_def solidCells_def bookWords_def plain_def solid_def is_ws_def ascii_def)

lemma bookWords_view:
  "join [LF, LF] (map (sheetView bookWords) (SheetNames bookWords))
     = ascii ''Sheet: S\<newline>a b\<newline>c\<newline>\<newline>Sheet: T\<newline>d''"
  by (simp add: sheetView_def bookWords_def ascii_def)

lemma bookPhrases_solid: "solidCells bookPhrases"
  by (simp add: solidCells_def bookPhrases_def solid_def is_ws_def ascii_def)

lemma bookPhrases_text:
  "join [LF, LF] (map (sheetText bookPhrases) (SheetNames bookPhrases))
     = ascii ''Sheet: Week 1\<newline>Math HW 2024-03-05\<newline>\<newline>Sheet: T\<newline>Room 12''"
  by (simp add: sheetText_def bookPhrases_def collapse.simps(2) ascii_def)

lemma bookHole_text:
  "trim (collapse (concat (map (sheetBlock bookHole) (SheetNames bookHole)))) = ascii ''Sheet: S\<newline>a b''"
  by (simp add: sheetBlock_def bookHole_def collapse.simps(2) trim_def is_ws_def ascii_def)

text \<open>Claim C9 as amended, at workbooks of two sheets (words, then phrases) and at a row
  with an empty cell.\<close>

theorem processExcel_text_witness:
  "xlsx_readFile (reading bookWords) [] = Inr bookWords \<and> wordsOnly bookWords
   \<and> processExcel (reading bookWords) []
       = Inr (ascii ''Sheet: S\<newline>a b\<newline>c\<newline>\<newline>Sheet: T\<newline>d'')
   \<and> xlsx_readFile (reading bookPhrases) [] = Inr bookPhrases \<and> solidCells bookPhrases
   \<and> processExcel (reading bookPhrases) []
       = Inr (ascii ''Sheet: Week 1\<newline>Math HW 2024-03-05\<newline>\<newline>Sheet: T\<newline>Room 12'')
   \<and> xlsx_readFile (reading bookHole) [] = Inr bookHole
   \<and> processExcel (reading bookHole) [] = Inr (ascii ''Sheet: S\<newline>a b'')"
proof -
  from processExcel_text[of "reading bookWords" "[]" bookWords] reading_read bookWords_words
  have "processExcel (reading bookWords) []
          = Inr (join [LF, LF] (map (sheetView bookWords) (SheetNames bookWords)))"
    by blast
  then have a: "processExcel (reading bookWords) []
       = Inr (ascii ''Sheet: S\<newline>a b\<newline>c\<newline>\<newline>Sheet: T\<newline>d'')"
    by (simp only: bookWords_view)
  from processExcel_text[of "reading bookPhrases" "[]" bookPhrases] reading_read bookPhrases_solid
  have "processExcel (reading bookPhrases) []
          = Inr (join [LF, LF] (map (sheetText bookPhrases) (SheetNames bookPhrases)))"
    by blast
  then have b: "processExcel (reading bookPhrases) []
       = Inr (ascii ''Sheet: Week 1\<newline>Math HW 2024-03-05\<newline>\<newline>Sheet: T\<newline>Room 12'')"
    by (simp only: bookPhrases_text)
  from processExcel_text[of "reading bookHole" "[]" bookHole] reading_read
  have "processExcel (reading bookHole) []
          = Inr (trim (collapse (concat (map (sheetBlock bookHole) (SheetNames bookHole)))))"
    by blast
  then have c: "processExcel (reading bookHole) [] = Inr (ascii ''Sheet: S\<newline>a b'')"
    by (simp only: bookHole_text)
  from a b c reading_read bookWords_words(1) bookPhrases_solid show ?thesis by blast
qed

lemma sampleBook_words: "wordsOnly sampleBook"
  by (simp add: wordsOnly_def sampleBook_def plain_def is_ws_def ascii_def)

lemma sampleBook_view:
  "join [LF, LF] (map (sheetView sampleBook) (SheetNames sampleBook))
     = ascii ''Sheet: S\<newline>a b\<newline>c''"
  by (simp add: sheetView_def sampleBook_def ascii_def)

lemma sampleBook_read: "xlsx_readFile sampleEnv filePath = Inr sampleBook"
  by (simp add: sampleEnv_def)

text \<open>
  Claim C9 as stated fails: the row with the cells \<open>a\<close> and \<open>b\<close> is returned as \<open>a b\<close>, joined
  by a space; the returned text holds no tab.
\<close>

theorem processExcel_counterexample:
  "Sheets sampleBook (ascii ''S'') = [[ascii ''a'', ascii ''b''], [], [ascii ''c'']]
   \<and> processExcel sampleEnv [] = Inr (ascii ''Sheet: S\<newline>a b\<newline>c'')
   \<and> TAB \<notin> set (ascii ''Sheet: S\<newline>a b\<newline>c'')"
proof -
  from processExcel_workbook[OF sampleBook_read] cleanText_workbook[OF sampleBook_words]
  have "processExcel sampleEnv [] = Inr (ascii ''Sheet: S\<newline>a b\<newline>c'')"
    by (simp only: sampleBook_view)
  then show ?thesis by (simp add: sampleBook_def) (simp add: ascii_def)
qed

section \<open>FormatRouter: supported and unsupported types in a run\<close>

lemma zip_refused:
  "processFile E filePath (ascii ''application/zip'')
     = ([], Inl (ascii ''Unsupported file type: application/zip''))"
proof -
  from processFile_Undefined[OF zip_lookup]
  have "processFile E filePath (ascii ''application/zip'')
     = ([], Inl (ascii ''Unsupported file type: '' @ ascii ''application/zip''))" .
  then show ?thesis by (simp add: ascii_def)
qed



subsection \<open>The FormatRouter and the filter of the route\<close>









subsection \<open>The scenarios of the specification, in the sample world\<close>

lemma mathItem:
  "parseAndValidateResponse (sampleEnv\<lparr>db_error := d\<rparr>) answerMath
     = Inr [\<lparr>assignment = ascii ''Math HW'', due_date = Some (ascii ''2024-03-05''),
              location = Some (ascii ''Room 12''), source = ascii ''notes.txt''\<rparr>]"
proof -
  have j: "jsonString answerMath = answerMath"
    by (simp add: jsonString_def matchJsonArray_def answerMath_def ascii_def)
  have p: "JSON_parse (sampleEnv\<lparr>db_error := d\<rparr>) (jsonString answerMath) = Inr (JArray [objectMath])"
    unfolding j by (simp add: sampleEnv_def sampleParse_def answerMath_def ascii_def)
  have t: "trim (ascii ''Math HW'') = ascii ''Math HW''" "trim (ascii ''Room 12'') = ascii ''Room 12''"
    "trim (ascii ''notes.txt'') = ascii ''notes.txt''"
    by (simp_all add: trim_def is_ws_def ascii_def)
  have f: "getField objectMath (ascii ''assignment'') = Some (JString (ascii ''Math HW''))"
    "getField objectMath (ascii ''due_date'') = Some (JString (ascii ''2024-03-05''))"
    "getField objectMath (ascii ''location'') = Some (JString (ascii ''Room 12''))"
    "getField objectMath (ascii ''source'') = Some (JString (ascii ''notes.txt''))"
    by (simp_all add: objectMath_def ascii_def)
  have ne: "ascii ''Math HW'' \<noteq> []" "ascii ''Room 12'' \<noteq> []" "ascii ''notes.txt'' \<noteq> []"
    by (simp_all add: ascii_def)
  have o: "typeofObject objectMath" "objectMath \<noteq> JNull" by (simp_all add: objectMath_def)
  have "validateItem 0 objectMath
     = Inr \<lparr>assignment = ascii ''Math HW'', due_date = Some (ascii ''2024-03-05''),
              location = Some (ascii ''Room 12''), source = ascii ''notes.txt''\<rparr>"
    by (simp add: validateItem_def o f validateString_def validateOptionalString_def
        validateDate_dateOrNull dateOrNull_def mar05 t ne)
  then show ?thesis by (simp add: response_array[OF p])
qed

lemma scenario_completed:
  "events (snd (uploadFile sampleEnv (ascii ''/uploads/notes.txt'') (ascii ''text/plain'')
                  (ascii ''notes.txt'')))
     = [Query InsertFile True, Strategy ProcessText,
        Query (UpdateExtractedText (ascii ''Math HW due 2024-03-05 in Room 12'')) True,
        Request 1,
        Query (InsertAssignment
                 \<lparr>assignment = ascii ''Math HW'', due_date = Some (ascii ''2024-03-05''),
                  location = Some (ascii ''Room 12''), source = ascii ''notes.txt''\<rparr>) True,
        Query UpdateCompleted True]
   \<and> fileRecord (snd (uploadFile sampleEnv (ascii ''/uploads/notes.txt'') (ascii ''text/plain'')
                  (ascii ''notes.txt'')))
     = Some \<lparr>processing_status = completed,
             extracted_text = Some (ascii ''Math HW due 2024-03-05 in Room 12''),
             processing_error = None\<rparr>"
proof -
  have e: "sampleEnv = sampleEnv\<lparr>db_error := (\<lambda>n. None)\<rparr>" by (simp add: sampleEnv_def)
  have d: "db_error sampleEnv n = None" for n by (simp add: sampleEnv_def)
  have p: "processFile sampleEnv (ascii ''/uploads/notes.txt'') (ascii ''text/plain'')
     = ([Strategy ProcessText], Inr (ascii ''Math HW due 2024-03-05 in Room 12''))"
    by (subst e) (rule sample_processFile)
  have c: "create sampleEnv prompt 1 = Inr (Some answerMath)" "answerMath \<noteq> []" for prompt
    by (simp_all add: sampleEnv_def answerMath_def ascii_def)
  have m: "parseAndValidateResponse sampleEnv answerMath
     = Inr [\<lparr>assignment = ascii ''Math HW'', due_date = Some (ascii ''2024-03-05''),
              location = Some (ascii ''Room 12''), source = ascii ''notes.txt''\<rparr>]"
    by (subst e) (rule mathItem)
  have x: "extractScheduleData sampleEnv t n
     = ([Request 1], Inr [\<lparr>assignment = ascii ''Math HW'', due_date = Some (ascii ''2024-03-05''),
              location = Some (ascii ''Room 12''), source = ascii ''notes.txt''\<rparr>])" for t n
    unfolding extractScheduleData_def
    by (rule retry_ok) (simp only: attemptRequest_content[OF c] m)
  show ?thesis
    by (simp add: uploadFile_def processFileAsync_def tryBlock_def query_def initial_def p d x)
qed

lemma cleanText_repository_test:
  "cleanText (Some (ascii ''Line 1'' @ [CR, LF, CR, LF] @ ascii ''Line 2'' @ [TAB, TAB]
                    @ ascii ''Extra spaces   '' @ [LF, LF, LF] @ ascii ''Line 3''))
     = ascii ''Line 1'' @ [LF, LF] @ ascii ''Line 2 Extra spaces '' @ [LF, LF] @ ascii ''Line 3''"
  by (simp add: cleanText_def replaceCR_def replaceRuns_Cons runLength_Cons runLength_Nil
      trim_def is_ws_def ascii_def)

end
